theory Spec2Isabelle
  imports Main "HOL-Library.Word"
begin

unbundle bit_operations_syntax

section \<open>Strings of the relay\<close>

text \<open>
  The relay is one TypeScript module, \<^verbatim>\<open>src/index.ts\<close>: the exported \<^verbatim>\<open>fetch\<close>
  handler, \<^verbatim>\<open>handleStream\<close> and, inside it, the background task
  \<^verbatim>\<open>processStream\<close>. What the module takes from its platform is modelled from the
  standards: \<^verbatim>\<open>JSON.parse\<close>, \<^verbatim>\<open>JSON.stringify\<close>, \<^verbatim>\<open>String.prototype.trim\<close> and
  the property order of objects from ECMA-262, the \<^verbatim>\<open>Response\<close> constructor from the
  Fetch standard. What the world decides is a parameter of the model: the answers of
  the upstream (\<open>upstream\<close>), the moment at which the client goes away (\<open>cap\<close>),
  and the text of a number that is not a small integer (\<open>dbl\<close>).

  The strings are ECMAScript strings: sequences of 16-bit code units. A literal of the
  source is written \<open>js ''...''\<close>.
\<close>

type_synonym cu = "16 word"
type_synonym jsstring = "cu list"

definition js :: "string \<Rightarrow> jsstring" where
  "js s = map of_char s"

text \<open>
  \<^verbatim>\<open>String.prototype.trim\<close> strips the ECMAScript white space and line terminator
  code units from both ends: TAB, LF, VT, FF, CR, SP, NBSP, the Unicode space
  separators, LS, PS and the byte order mark.
\<close>

definition is_js_space :: "cu \<Rightarrow> bool" where
  "is_js_space c =
     ((0x09 \<le> c \<and> c \<le> 0x0D) \<or> c = 0x20 \<or> c = 0xA0 \<or> c = 0x1680
      \<or> (0x2000 \<le> c \<and> c \<le> 0x200A) \<or> c = 0x2028 \<or> c = 0x2029 \<or> c = 0x202F
      \<or> c = 0x205F \<or> c = 0x3000 \<or> c = 0xFEFF)"

definition trim :: "jsstring \<Rightarrow> jsstring" where
  "trim s = rev (dropWhile is_js_space (rev (dropWhile is_js_space s)))"

definition startsWith :: "jsstring \<Rightarrow> jsstring \<Rightarrow> bool" where
  "startsWith s p = (take (length p) s = p)"

text \<open>\<^verbatim>\<open>buffer.indexOf("\n")\<close>: the position of the first line feed, \<open>None\<close> for -1.\<close>

fun indexOf_nl :: "jsstring \<Rightarrow> nat option" where
  "indexOf_nl [] = None"
| "indexOf_nl (c # cs) = (if c = 0x0A then Some 0 else map_option Suc (indexOf_nl cs))"

fun join :: "jsstring \<Rightarrow> jsstring list \<Rightarrow> jsstring" where
  "join sep [] = []"
| "join sep [x] = x"
| "join sep (x # y # ys) = x @ sep @ join sep (y # ys)"

section \<open>ECMAScript values and objects\<close>

text \<open>
  The values that \<^verbatim>\<open>JSON.parse\<close> produces and \<^verbatim>\<open>JSON.stringify\<close> consumes, and
  \<^verbatim>\<open>undefined\<close> for a property that is not there. A number is held as the text that
  \<^verbatim>\<open>Number.prototype.toString\<close> gives for it, which identifies it (\<open>-0\<close> and \<open>0\<close> both
  read \<open>0\<close>). An object is the list of its own properties in the order in which
  the engine enumerates them.
\<close>

datatype jsvalue =
    JUndefined
  | JNull
  | JBool bool
  | JNum jsstring
  | JStr jsstring
  | JArr "jsvalue list"
  | JObj "(jsstring \<times> jsvalue) list"

type_synonym jsobject = "(jsstring \<times> jsvalue) list"

definition is_digit :: "cu \<Rightarrow> bool" where
  "is_digit c = (0x30 \<le> c \<and> c \<le> 0x39)"

definition dec_val :: "jsstring \<Rightarrow> nat" where
  "dec_val s = foldl (\<lambda>n c. 10 * n + (unat c - 48)) 0 s"

text \<open>
  An array index is a property key that is the canonical decimal text of an integer
  from 0 to \<open>2^32 - 2\<close>. Own property keys are enumerated with the array indices first,
  ascending, and then the other keys in the order of their creation.
\<close>

definition array_index :: "jsstring \<Rightarrow> nat option" where
  "array_index k =
     (if k \<noteq> [] \<and> list_all is_digit k \<and> (k = [0x30] \<or> hd k \<noteq> 0x30) \<and> dec_val k < 2 ^ 32 - 1
      then Some (dec_val k) else None)"

fun obj_replace :: "jsstring \<Rightarrow> jsvalue \<Rightarrow> jsobject \<Rightarrow> jsobject" where
  "obj_replace k v [] = []"
| "obj_replace k v (p # ps) = (if fst p = k then (k, v) # ps else p # obj_replace k v ps)"

fun obj_insert_index :: "nat \<Rightarrow> jsstring \<Rightarrow> jsvalue \<Rightarrow> jsobject \<Rightarrow> jsobject" where
  "obj_insert_index i k v [] = [(k, v)]"
| "obj_insert_index i k v (p # ps) =
     (case array_index (fst p) of
        Some j \<Rightarrow> if j < i then p # obj_insert_index i k v ps else (k, v) # p # ps
      | None \<Rightarrow> (k, v) # p # ps)"

text \<open>
  \<^verbatim>\<open>CreateDataProperty\<close> on an ordinary object, as the object literal, the spread,
  the rest pattern and \<^verbatim>\<open>JSON.parse\<close> perform it: an existing key keeps its place and
  takes the new value; a new key goes to its place in the enumeration order.
\<close>

definition obj_set :: "jsobject \<Rightarrow> jsstring \<Rightarrow> jsvalue \<Rightarrow> jsobject" where
  "obj_set ps k v =
     (if map_of ps k \<noteq> None then obj_replace k v ps
      else case array_index k of
             Some i \<Rightarrow> obj_insert_index i k v ps
           | None \<Rightarrow> ps @ [(k, v)])"

section \<open>JSON.stringify\<close>

definition hex_digit :: "cu \<Rightarrow> cu" where
  "hex_digit n = (if n < 10 then 0x30 + n else 0x57 + n)"

definition unicode_escape :: "cu \<Rightarrow> jsstring" where
  "unicode_escape c =
     [0x5C, 0x75, hex_digit (drop_bit 12 c), hex_digit (drop_bit 8 c AND 0xF),
      hex_digit (drop_bit 4 c AND 0xF), hex_digit (c AND 0xF)]"

definition is_high_surrogate :: "cu \<Rightarrow> bool" where
  "is_high_surrogate c = (0xD800 \<le> c \<and> c \<le> 0xDBFF)"

definition is_low_surrogate :: "cu \<Rightarrow> bool" where
  "is_low_surrogate c = (0xDC00 \<le> c \<and> c \<le> 0xDFFF)"

text \<open>
  \<^verbatim>\<open>QuoteJSONString\<close> without the enclosing quotes: the short escapes, \<open>\uXXXX\<close> in
  lower case for the other control characters and for a surrogate that has no
  partner, everything else as it is.
\<close>

fun quote_chars :: "jsstring \<Rightarrow> jsstring" where
  "quote_chars [] = []"
| "quote_chars [c] =
     (if c = 0x08 then [0x5C, 0x62]
      else if c = 0x09 then [0x5C, 0x74]
      else if c = 0x0A then [0x5C, 0x6E]
      else if c = 0x0C then [0x5C, 0x66]
      else if c = 0x0D then [0x5C, 0x72]
      else if c = 0x22 then [0x5C, 0x22]
      else if c = 0x5C then [0x5C, 0x5C]
      else if c < 0x20 \<or> is_high_surrogate c \<or> is_low_surrogate c then unicode_escape c
      else [c])"
| "quote_chars (c # d # ds) =
     (if is_high_surrogate c \<and> is_low_surrogate d then c # d # quote_chars ds
      else quote_chars [c] @ quote_chars (d # ds))"

definition quote :: "jsstring \<Rightarrow> jsstring" where
  "quote s = [0x22] @ quote_chars s @ [0x22]"

text \<open>
  \<^verbatim>\<open>SerializeJSONProperty\<close> with no replacer and no indentation; \<open>None\<close> is the
  \<^verbatim>\<open>undefined\<close> that it returns for \<^verbatim>\<open>undefined\<close>. A property whose value is
  \<^verbatim>\<open>undefined\<close> is left out of an object, an element that is \<^verbatim>\<open>undefined\<close> is
  written \<open>null\<close> in an array, and a number that is not finite is written \<open>null\<close>.
\<close>

definition number_text :: "jsstring \<Rightarrow> jsstring" where
  "number_text t =
     (if t = js ''Infinity'' \<or> t = js ''-Infinity'' \<or> t = js ''NaN'' then js ''null'' else t)"

fun JSON_stringify :: "jsvalue \<Rightarrow> jsstring option" where
  "JSON_stringify JUndefined = None"
| "JSON_stringify JNull = Some (js ''null'')"
| "JSON_stringify (JBool b) = Some (if b then js ''true'' else js ''false'')"
| "JSON_stringify (JNum t) = Some (number_text t)"
| "JSON_stringify (JStr s) = Some (quote s)"
| "JSON_stringify (JArr vs) =
     Some ([0x5B] @ join [0x2C]
       (map (\<lambda>v. case JSON_stringify v of None \<Rightarrow> js ''null'' | Some t \<Rightarrow> t) vs) @ [0x5D])"
| "JSON_stringify (JObj ps) =
     Some ([0x7B] @ join [0x2C]
       (concat (map (\<lambda>p. case JSON_stringify (snd p) of
                            None \<Rightarrow> []
                          | Some t \<Rightarrow> [quote (fst p) @ [0x3A] @ t]) ps)) @ [0x7D])"

text \<open>A template literal writes \<^verbatim>\<open>undefined\<close> as the text \<open>undefined\<close>.\<close>

definition template :: "jsstring option \<Rightarrow> jsstring" where
  "template t = (case t of None \<Rightarrow> js ''undefined'' | Some s \<Rightarrow> s)"

section \<open>JSON.parse\<close>

text \<open>
  \<^verbatim>\<open>JSON.parse\<close> is the JSON grammar of ECMA-404 read from left to right, one code
  unit at a time, with a stack of the arrays and objects that are still open. Running
  into anything that the grammar does not allow is the \<^verbatim>\<open>SyntaxError\<close> of the
  engine (the state \<open>PErr\<close>).
\<close>

datatype frame =
    FArr "jsvalue list"
  | FObj jsobject
  | FMem jsobject jsstring

datatype numst = NMinus | NZero | NInt | NDot | NFrac | NExp | NExpSign | NExpDig

datatype escst = Plain | Esc | Hex "cu list"

datatype mode =
    MVal
  | MArrStart
  | MObjStart
  | MKey
  | MColon jsstring
  | MStr bool jsstring escst
  | MNum jsstring numst
  | MLit jsstring jsvalue
  | MAfter
  | MDone jsvalue

datatype pstate = PErr | PSt mode "frame list"

definition is_json_ws :: "cu \<Rightarrow> bool" where
  "is_json_ws c = (c = 0x20 \<or> c = 0x09 \<or> c = 0x0A \<or> c = 0x0D)"

definition unhex :: "cu \<Rightarrow> cu option" where
  "unhex c =
     (if 0x30 \<le> c \<and> c \<le> 0x39 then Some (c - 0x30)
      else if 0x61 \<le> c \<and> c \<le> 0x66 then Some (c - 0x57)
      else if 0x41 \<le> c \<and> c \<le> 0x46 then Some (c - 0x37)
      else None)"

definition hex4 :: "cu list \<Rightarrow> cu" where
  "hex4 ds = foldl (\<lambda>n d. push_bit 4 n OR d) 0 ds"

text \<open>A value that is complete goes into the innermost open container.\<close>

fun complete :: "jsvalue \<Rightarrow> frame list \<Rightarrow> pstate" where
  "complete v [] = PSt (MDone v) []"
| "complete v (FArr vs # K) = PSt MAfter (FArr (vs @ [v]) # K)"
| "complete v (FMem ps k # K) = PSt MAfter (FObj (obj_set ps k v) # K)"
| "complete v (FObj ps # K) = PErr"

definition start_value :: "cu \<Rightarrow> frame list \<Rightarrow> pstate" where
  "start_value c K =
     (if c = 0x22 then PSt (MStr False [] Plain) K
      else if c = 0x5B then PSt MArrStart (FArr [] # K)
      else if c = 0x7B then PSt MObjStart (FObj [] # K)
      else if c = 0x2D then PSt (MNum [c] NMinus) K
      else if c = 0x30 then PSt (MNum [c] NZero) K
      else if 0x31 \<le> c \<and> c \<le> 0x39 then PSt (MNum [c] NInt) K
      else if c = 0x74 then PSt (MLit (js ''rue'') (JBool True)) K
      else if c = 0x66 then PSt (MLit (js ''alse'') (JBool False)) K
      else if c = 0x6E then PSt (MLit (js ''ull'') JNull) K
      else PErr)"

definition close_array :: "frame list \<Rightarrow> pstate" where
  "close_array K = (case K of FArr vs # K' \<Rightarrow> complete (JArr vs) K' | _ \<Rightarrow> PErr)"

definition close_object :: "frame list \<Rightarrow> pstate" where
  "close_object K = (case K of FObj ps # K' \<Rightarrow> complete (JObj ps) K' | _ \<Rightarrow> PErr)"

definition end_string :: "bool \<Rightarrow> jsstring \<Rightarrow> frame list \<Rightarrow> pstate" where
  "end_string is_key s K = (if is_key then PSt (MColon s) K else complete (JStr s) K)"

definition step_string :: "bool \<Rightarrow> jsstring \<Rightarrow> escst \<Rightarrow> cu \<Rightarrow> frame list \<Rightarrow> pstate" where
  "step_string is_key s e c K =
     (case e of
        Plain \<Rightarrow>
          if c = 0x22 then end_string is_key s K
          else if c = 0x5C then PSt (MStr is_key s Esc) K
          else if c < 0x20 then PErr
          else PSt (MStr is_key (s @ [c]) Plain) K
      | Esc \<Rightarrow>
          if c = 0x22 \<or> c = 0x5C \<or> c = 0x2F then PSt (MStr is_key (s @ [c]) Plain) K
          else if c = 0x62 then PSt (MStr is_key (s @ [0x08]) Plain) K
          else if c = 0x66 then PSt (MStr is_key (s @ [0x0C]) Plain) K
          else if c = 0x6E then PSt (MStr is_key (s @ [0x0A]) Plain) K
          else if c = 0x72 then PSt (MStr is_key (s @ [0x0D]) Plain) K
          else if c = 0x74 then PSt (MStr is_key (s @ [0x09]) Plain) K
          else if c = 0x75 then PSt (MStr is_key s (Hex [])) K
          else PErr
      | Hex ds \<Rightarrow>
          (case unhex c of
             None \<Rightarrow> PErr
           | Some d \<Rightarrow>
               if length ds = 3 then PSt (MStr is_key (s @ [hex4 (ds @ [d])]) Plain) K
               else PSt (MStr is_key s (Hex (ds @ [d]))) K))"

text \<open>The number grammar: \<open>-? (0 | [1-9][0-9]*) (. [0-9]+)? ([eE] [+-]? [0-9]+)?\<close>.\<close>

definition num_next :: "numst \<Rightarrow> cu \<Rightarrow> numst option" where
  "num_next ns c =
     (case ns of
        NMinus \<Rightarrow> if c = 0x30 then Some NZero else if is_digit c then Some NInt else None
      | NZero \<Rightarrow> if c = 0x2E then Some NDot else if c = 0x65 \<or> c = 0x45 then Some NExp else None
      | NInt \<Rightarrow> if is_digit c then Some NInt else if c = 0x2E then Some NDot
                else if c = 0x65 \<or> c = 0x45 then Some NExp else None
      | NDot \<Rightarrow> if is_digit c then Some NFrac else None
      | NFrac \<Rightarrow> if is_digit c then Some NFrac
                 else if c = 0x65 \<or> c = 0x45 then Some NExp else None
      | NExp \<Rightarrow> if c = 0x2B \<or> c = 0x2D then Some NExpSign
                else if is_digit c then Some NExpDig else None
      | NExpSign \<Rightarrow> if is_digit c then Some NExpDig else None
      | NExpDig \<Rightarrow> if is_digit c then Some NExpDig else None)"

definition num_accepting :: "numst \<Rightarrow> bool" where
  "num_accepting ns = (ns = NZero \<or> ns = NInt \<or> ns = NFrac \<or> ns = NExpDig)"

text \<open>
  The number that a token denotes, as the text \<^verbatim>\<open>Number.prototype.toString\<close> gives
  for it. A token with neither fraction nor exponent and of magnitude at most \<open>2^53\<close>
  denotes that integer exactly, and an integer below \<open>10^21\<close> is written with its
  decimal digits, so the token is its own text (\<open>-0\<close> reads \<open>0\<close>). For every other
  token the text is what IEEE 754 rounding and the shortest round-trip digits make of
  it; the relay does not depend on it, and it is the parameter \<open>dbl\<close>.
\<close>

definition num_value :: "(jsstring \<Rightarrow> jsstring) \<Rightarrow> jsstring \<Rightarrow> numst \<Rightarrow> jsvalue" where
  "num_value dbl tok ns =
     JNum (if (ns = NZero \<or> ns = NInt)
              \<and> dec_val (if hd tok = 0x2D then tl tok else tok) \<le> 2 ^ 53
           then (if tok = js ''-0'' then js ''0'' else tok)
           else dbl tok)"

text \<open>One code unit in a state that is not inside a number.\<close>

definition step_other :: "pstate \<Rightarrow> cu \<Rightarrow> pstate" where
  "step_other st c =
     (case st of
        PErr \<Rightarrow> PErr
      | PSt m K \<Rightarrow>
          (case m of
             MVal \<Rightarrow> if is_json_ws c then st else start_value c K
           | MArrStart \<Rightarrow>
               if is_json_ws c then st
               else if c = 0x5D then close_array K
               else start_value c K
           | MObjStart \<Rightarrow>
               if is_json_ws c then st
               else if c = 0x7D then close_object K
               else if c = 0x22 then PSt (MStr True [] Plain) K
               else PErr
           | MKey \<Rightarrow>
               if is_json_ws c then st
               else if c = 0x22 then PSt (MStr True [] Plain) K
               else PErr
           | MColon k \<Rightarrow>
               if is_json_ws c then st
               else if c = 0x3A then
                 (case K of FObj ps # K' \<Rightarrow> PSt MVal (FMem ps k # K') | _ \<Rightarrow> PErr)
               else PErr
           | MStr is_key s e \<Rightarrow> step_string is_key s e c K
           | MNum tok ns \<Rightarrow> PErr
           | MLit rest v \<Rightarrow>
               (case rest of
                  [] \<Rightarrow> PErr
                | r # rs \<Rightarrow>
                    if c = r then (if rs = [] then complete v K else PSt (MLit rs v) K)
                    else PErr)
           | MAfter \<Rightarrow>
               if is_json_ws c then st
               else if c = 0x2C then
                 (case K of
                    FArr vs # K' \<Rightarrow> PSt MVal K
                  | FObj ps # K' \<Rightarrow> PSt MKey K
                  | _ \<Rightarrow> PErr)
               else if c = 0x5D then close_array K
               else if c = 0x7D then close_object K
               else PErr
           | MDone v \<Rightarrow> if is_json_ws c then st else PErr))"

text \<open>
  A number ends at the first code unit that cannot continue it; that code unit is then
  read in the state after the number.
\<close>

definition step :: "(jsstring \<Rightarrow> jsstring) \<Rightarrow> pstate \<Rightarrow> cu \<Rightarrow> pstate" where
  "step dbl st c =
     (case st of
        PSt (MNum tok ns) K \<Rightarrow>
          (case num_next ns c of
             Some ns' \<Rightarrow> PSt (MNum (tok @ [c]) ns') K
           | None \<Rightarrow>
               if num_accepting ns then step_other (complete (num_value dbl tok ns) K) c
               else PErr)
      | _ \<Rightarrow> step_other st c)"

definition finish :: "(jsstring \<Rightarrow> jsstring) \<Rightarrow> pstate \<Rightarrow> jsvalue option" where
  "finish dbl st =
     (case st of
        PSt (MDone v) [] \<Rightarrow> Some v
      | PSt (MNum tok ns) [] \<Rightarrow> if num_accepting ns then Some (num_value dbl tok ns) else None
      | _ \<Rightarrow> None)"

text \<open>\<^verbatim>\<open>JSON.parse(text)\<close>; \<open>None\<close> is the \<^verbatim>\<open>SyntaxError\<close> it throws.\<close>

definition JSON_parse :: "(jsstring \<Rightarrow> jsstring) \<Rightarrow> jsstring \<Rightarrow> jsvalue option" where
  "JSON_parse dbl s = finish dbl (foldl (step dbl) (PSt MVal []) s)"

section \<open>The background copy task\<close>

text \<open>
  What \<^verbatim>\<open>owrError\<close> writes to the console: its message and the error or text that it
  is given. \<^verbatim>\<open>owrLog\<close> prints nothing, since \<^verbatim>\<open>DEBUG\<close> is false.
\<close>

datatype cause =
    SyntaxError | TypeError | RangeError | NetworkError | ReadError | WriterError
  | NoResponseBody

datatype detail = NoDetail | Thrown cause | Text jsstring

type_synonym log_entry = "jsstring \<times> detail"

text \<open>
  The upstream body as the reader delivers it: the texts that
  \<^verbatim>\<open>decoder.decode(value, { stream: true })\<close> returns for the successive reads, and then
  either \<^verbatim>\<open>done\<close> or a read that throws.
\<close>

datatype read_end = EndOfStream | ReadFails

record upstream_body =
  chunks :: "jsstring list"
  ending :: read_end

text \<open>
  The state of \<^verbatim>\<open>processStream\<close>: the line buffer, the texts whose encodings the
  writer has accepted, and the console. The client is the parameter \<open>cap\<close>: with
  \<open>Some n\<close> the outbound stream is in error once it has taken \<open>n\<close> writes (the client
  went away), so every later \<^verbatim>\<open>writer.write\<close> and \<^verbatim>\<open>writer.close\<close> rejects; with
  \<open>None\<close> it takes every write.
\<close>

record relay =
  buffer :: jsstring
  written :: "jsstring list"
  errors :: "log_entry list"

datatype stream_end = Closed | Aborted

definition writer_errored :: "nat option \<Rightarrow> relay \<Rightarrow> bool" where
  "writer_errored cap st = (case cap of None \<Rightarrow> False | Some n \<Rightarrow> n \<le> length (written st))"

text \<open>
  Lines 121 to 134: what the inner loop does with one trimmed line. A rejected write is
  caught by the same \<^verbatim>\<open>catch\<close> as a \<^verbatim>\<open>SyntaxError\<close> of \<^verbatim>\<open>JSON.parse\<close>.
\<close>

definition relay_line :: "(jsstring \<Rightarrow> jsstring) \<Rightarrow> nat option \<Rightarrow> jsstring \<Rightarrow> relay \<Rightarrow> relay" where
  "relay_line dbl cap line st =
     (if startsWith line (js ''data: '') then
        (let data = drop 6 line in
         if data = js ''[DONE]'' then st
         else
           (case JSON_parse dbl data of
              None \<Rightarrow> st\<lparr>errors := errors st @ [(js ''Error parsing SSE data'', Thrown SyntaxError)]\<rparr>
            | Some parsed \<Rightarrow>
                if writer_errored cap st
                then st\<lparr>errors := errors st @ [(js ''Error parsing SSE data'', Thrown WriterError)]\<rparr>
                else st\<lparr>written := written st
                       @ [js ''data: '' @ template (JSON_stringify parsed) @ [0x0A, 0x0A]]\<rparr>))
      else st)"

lemma indexOf_nl_less: "indexOf_nl s = Some i \<Longrightarrow> i < length s"
  by (induction s arbitrary: i) (auto split: if_splits)

lemma buffer_relay_line: "buffer (relay_line dbl cap line st) = buffer st"
  by (simp add: relay_line_def Let_def split: option.split)

text \<open>Lines 117 to 135: the inner loop over the complete lines of the buffer.\<close>

function drain_lines :: "(jsstring \<Rightarrow> jsstring) \<Rightarrow> nat option \<Rightarrow> relay \<Rightarrow> relay" where
  "drain_lines dbl cap st =
     (case indexOf_nl (buffer st) of
        None \<Rightarrow> st
      | Some lineEnd \<Rightarrow>
          drain_lines dbl cap
            (relay_line dbl cap (trim (take lineEnd (buffer st)))
               (st\<lparr>buffer := drop (lineEnd + 1) (buffer st)\<rparr>)))"
  by pat_completeness auto
termination
  by (relation "measure (\<lambda>(dbl, cap, st). length (buffer st))")
    (auto simp: buffer_relay_line dest: indexOf_nl_less)

declare drain_lines.simps [simp del]

text \<open>
  Lines 105 to 140: the outer loop over the reads. At \<^verbatim>\<open>done\<close> the writer is closed;
  a read that throws, or a \<^verbatim>\<open>close\<close> that rejects, is logged and the writer aborted.
\<close>

fun read_loop ::
  "(jsstring \<Rightarrow> jsstring) \<Rightarrow> nat option \<Rightarrow> jsstring list \<Rightarrow> read_end \<Rightarrow> relay \<Rightarrow> relay \<times> stream_end"
where
  "read_loop dbl cap [] EndOfStream st =
     (if writer_errored cap st
      then (st\<lparr>errors := errors st @ [(js ''Error processing stream'', Thrown WriterError)]\<rparr>,
            Aborted)
      else (st, Closed))"
| "read_loop dbl cap [] ReadFails st =
     (st\<lparr>errors := errors st @ [(js ''Error processing stream'', Thrown ReadError)]\<rparr>, Aborted)"
| "read_loop dbl cap (value # reads) e st =
     read_loop dbl cap reads e (drain_lines dbl cap (st\<lparr>buffer := buffer st @ value\<rparr>))"

definition processStream ::
  "(jsstring \<Rightarrow> jsstring) \<Rightarrow> nat option \<Rightarrow> upstream_body \<Rightarrow> relay \<times> stream_end" where
  "processStream dbl cap b =
     read_loop dbl cap (chunks b) (ending b) \<lparr>buffer = [], written = [], errors = []\<rparr>"

section \<open>The handler\<close>

text \<open>
  The inbound request: \<^verbatim>\<open>request.method\<close> (the field \<open>method_name\<close>), its
  \<open>origin\<close> header and the text of its body.
\<close>

record request =
  method_name :: jsstring
  origin :: "jsstring option"
  body :: jsstring

text \<open>\<^verbatim>\<open>env.OPENROUTER_API_KEY\<close>; \<open>None\<close> when the binding is not set.\<close>

record env =
  OPENROUTER_API_KEY :: "jsstring option"

text \<open>The request that line 77 hands to the global \<^verbatim>\<open>fetch\<close>.\<close>

record outbound =
  url :: jsstring
  out_method :: jsstring
  authorization :: jsstring
  content_type :: jsstring
  http_referer :: jsstring
  x_title :: jsstring
  out_body :: "jsstring option"

record upstream_response =
  up_status :: nat
  up_body :: "upstream_body option"

datatype fetch_result = FetchRejects | FetchResolves upstream_response

datatype content = Plain_text jsstring | Event_stream "jsstring list" stream_end

record response =
  status :: nat
  headers :: "(jsstring \<times> jsstring) list"
  content :: content

text \<open>
  What one call of the handler does: the response it resolves with (\<open>Inl\<close> when it
  rejects with an exception that nothing catches), the console, the calls of the global
  \<^verbatim>\<open>fetch\<close> that it made, and whether it read the body of the request.
\<close>

record outcome =
  result :: "cause + response"
  console :: "log_entry list"
  calls :: "outbound list"
  body_read :: bool

definition MODEL :: jsstring where
  "MODEL = js ''google/gemini-2.0-pro-exp-02-05:free''"

definition OPENROUTER_URL :: jsstring where
  "OPENROUTER_URL = js ''https://openrouter.ai/api/v1/chat/completions''"

text \<open>\<^verbatim>\<open>ToBoolean\<close>, as \<open>!\<close> and \<open>||\<close> apply it.\<close>

fun truthy :: "jsvalue \<Rightarrow> bool" where
  "truthy JUndefined = False"
| "truthy JNull = False"
| "truthy (JBool b) = b"
| "truthy (JNum t) = (t \<noteq> js ''0'' \<and> t \<noteq> js ''NaN'')"
| "truthy (JStr s) = (s \<noteq> [])"
| "truthy (JArr vs) = True"
| "truthy (JObj ps) = True"

definition truthy_string :: "jsstring option \<Rightarrow> bool" where
  "truthy_string s = (case s of None \<Rightarrow> False | Some t \<Rightarrow> t \<noteq> [])"

text \<open>
  Reading the property \<open>messages\<close> or \<open>model\<close> of a value that is not \<^verbatim>\<open>null\<close>: an
  own property of an object, and \<^verbatim>\<open>undefined\<close> otherwise (no built-in prototype has
  either name).
\<close>

definition get_named :: "jsvalue \<Rightarrow> jsstring \<Rightarrow> jsvalue" where
  "get_named v k =
     (case v of
        JObj ps \<Rightarrow> (case map_of ps k of None \<Rightarrow> JUndefined | Some x \<Rightarrow> x)
      | _ \<Rightarrow> JUndefined)"

fun dec_str :: "nat \<Rightarrow> jsstring" where
  "dec_str n = (if n < 10 then [0x30 + of_nat n] else dec_str (n div 10) @ [0x30 + of_nat (n mod 10)])"

declare dec_str.simps [simp del]

text \<open>
  The own enumerable properties that a rest pattern copies: those of an object, the
  elements of an array and the code units of a string under their indices, and none of
  a number or a boolean.
\<close>

definition own_properties :: "jsvalue \<Rightarrow> jsobject" where
  "own_properties v =
     (case v of
        JObj ps \<Rightarrow> ps
      | JArr vs \<Rightarrow> map (\<lambda>i. (dec_str i, vs ! i)) [0 ..< length vs]
      | JStr s \<Rightarrow> map (\<lambda>i. (dec_str i, JStr [s ! i])) [0 ..< length s]
      | _ \<Rightarrow> [])"

text \<open>
  Lines 62 to 68. The rest pattern leaves \<open>messages\<close> and \<open>model\<close> out of
  \<^verbatim>\<open>restOfBody\<close>; the object literal then defines \<open>model\<close>, \<open>messages\<close> and \<open>stream\<close>
  and, after them, every property of \<^verbatim>\<open>restOfBody\<close>.
\<close>

definition restOfBody :: "jsvalue \<Rightarrow> jsobject" where
  "restOfBody requestBody =
     filter (\<lambda>p. fst p \<noteq> js ''messages'' \<and> fst p \<noteq> js ''model'') (own_properties requestBody)"

definition payload :: "jsvalue \<Rightarrow> jsobject" where
  "payload requestBody =
     (let messages = get_named requestBody (js ''messages'');
          requestModel = get_named requestBody (js ''model'')
      in foldl (\<lambda>ps p. obj_set ps (fst p) (snd p))
           (obj_set
              (obj_set
                 (obj_set [] (js ''model'') (if truthy requestModel then requestModel else JStr MODEL))
                 (js ''messages'') messages)
              (js ''stream'') (JBool True))
           (restOfBody requestBody))"

text \<open>
  The \<^verbatim>\<open>Response\<close> constructor of the Fetch standard, always called here with a body:
  it throws a \<^verbatim>\<open>RangeError\<close> for a status outside 200 to 599 and a \<^verbatim>\<open>TypeError\<close> for
  a null body status.
\<close>

definition new_Response :: "content \<Rightarrow> nat \<Rightarrow> (jsstring \<times> jsstring) list \<Rightarrow> cause + response" where
  "new_Response b st hs =
     (if st < 200 \<or> 599 < st then Inl RangeError
      else if st = 204 \<or> st = 205 \<or> st = 304 then Inl TypeError
      else Inr \<lparr>status = st, headers = hs, content = b\<rparr>)"

definition ok :: "upstream_response \<Rightarrow> bool" where
  "ok r = (200 \<le> up_status r \<and> up_status r \<le> 299)"

text \<open>\<^verbatim>\<open>response.text()\<close>: the whole body, or \<open>None\<close> when reading it throws.\<close>

definition text_of :: "upstream_response \<Rightarrow> jsstring option" where
  "text_of r =
     (case up_body r of
        None \<Rightarrow> Some []
      | Some b \<Rightarrow> (case ending b of EndOfStream \<Rightarrow> Some (concat (chunks b)) | ReadFails \<Rightarrow> None))"

definition request_failed :: "cause \<Rightarrow> log_entry list \<Rightarrow> outbound \<Rightarrow> outcome" where
  "request_failed e logged c =
     \<lparr>result = new_Response (Plain_text (js ''Error making request to OpenRouter'')) 500 [],
      console = logged @ [(js ''Error making request to OpenRouter'', Thrown e)],
      calls = [c], body_read = True\<rparr>"

definition handleStream ::
  "(jsstring \<Rightarrow> jsstring) \<Rightarrow> nat option \<Rightarrow> (outbound \<Rightarrow> fetch_result) \<Rightarrow> request \<Rightarrow> env \<Rightarrow> outcome"
where
  "handleStream dbl cap upstream req e =
     (if \<not> truthy_string (OPENROUTER_API_KEY e) then
        \<lparr>result = new_Response (Plain_text (js ''Missing API key'')) 401 [],
         console = [(js ''Missing OpenRouter API key. Did you forget to set OPENROUTER_API_KEY in .dev.vars (for local dev) or with wrangler secret put OPENROUTER_API_KEY (for production)?'', NoDetail)],
         calls = [], body_read = False\<rparr>
      else
        (case JSON_parse dbl (body req) of
           None \<Rightarrow>
             \<lparr>result = new_Response (Plain_text (js ''Invalid request body'')) 400 [],
              console = [(js ''Error parsing request body'', Thrown SyntaxError)],
              calls = [], body_read = True\<rparr>
         | Some requestBody \<Rightarrow>
             if requestBody = JNull then
               \<lparr>result = Inl TypeError, console = [], calls = [], body_read = True\<rparr>
             else
               (let c = \<lparr>url = OPENROUTER_URL, out_method = js ''POST'',
                         authorization = js ''Bearer '' @ template (OPENROUTER_API_KEY e),
                         content_type = js ''application/json'',
                         http_referer =
                           (if truthy_string (origin req) then template (origin req)
                            else js ''https://localhost''),
                         x_title = js ''OpenRouter Relay'',
                         out_body = JSON_stringify (JObj (payload requestBody))\<rparr>
                in case upstream c of
                     FetchRejects \<Rightarrow> request_failed NetworkError [] c
                   | FetchResolves r \<Rightarrow>
                       if \<not> ok r then
                         (case text_of r of
                            None \<Rightarrow> request_failed ReadError [] c
                          | Some error \<Rightarrow>
                              (case new_Response (Plain_text (js ''OpenRouter API error: '' @ error))
                                      (up_status r) [] of
                                 Inl thrown \<Rightarrow>
                                   request_failed thrown [(js ''OpenRouter API error'', Text error)] c
                               | Inr resp \<Rightarrow>
                                   \<lparr>result = Inr resp,
                                    console = [(js ''OpenRouter API error'', Text error)],
                                    calls = [c], body_read = True\<rparr>))
                       else
                         (case up_body r of
                            None \<Rightarrow> request_failed NoResponseBody [] c
                          | Some b \<Rightarrow>
                              (let (st, fin) = processStream dbl cap b
                               in \<lparr>result =
                                     new_Response (Event_stream (written st) fin) 200
                                       [(js ''Content-Type'', js ''text/event-stream''),
                                        (js ''Cache-Control'', js ''no-cache''),
                                        (js ''Connection'', js ''keep-alive'')],
                                   console = errors st, calls = [c], body_read = True\<rparr>)))))"

text \<open>Lines 160 to 173: the exported \<^verbatim>\<open>fetch\<close> handler.\<close>

definition fetch ::
  "(jsstring \<Rightarrow> jsstring) \<Rightarrow> nat option \<Rightarrow> (outbound \<Rightarrow> fetch_result) \<Rightarrow> request \<Rightarrow> env \<Rightarrow> outcome"
where
  "fetch dbl cap upstream req e =
     (if method_name req \<noteq> js ''POST'' then
        \<lparr>result = new_Response (Plain_text (js ''Method not allowed'')) 405 [],
         console = [], calls = [], body_read = False\<rparr>
      else handleStream dbl cap upstream req e)"

section \<open>The stream as a sequence of lines\<close>

text \<open>
  The vocabulary of the statements about the copy task: the lines of a text that end
  with a line feed, what is left after the last of them, the event that one such line
  yields, and the diagnostic that it yields.
\<close>


function complete_lines :: "jsstring \<Rightarrow> jsstring list" where
  "complete_lines s =
     (case indexOf_nl s of None \<Rightarrow> [] | Some i \<Rightarrow> take i s # complete_lines (drop (i + 1) s))"
  by pat_completeness auto
termination
  by (relation "measure length") (auto dest: indexOf_nl_less)

function unterminated :: "jsstring \<Rightarrow> jsstring" where
  "unterminated s = (case indexOf_nl s of None \<Rightarrow> s | Some i \<Rightarrow> unterminated (drop (i + 1) s))"
  by pat_completeness auto
termination
  by (relation "measure length") (auto dest: indexOf_nl_less)

declare complete_lines.simps [simp del] unterminated.simps [simp del]

definition forwarded :: "(jsstring \<Rightarrow> jsstring) \<Rightarrow> jsstring \<Rightarrow> jsstring option" where
  "forwarded dbl l =
     (if startsWith (trim l) (js ''data: '') \<and> drop 6 (trim l) \<noteq> js ''[DONE]''
      then map_option (\<lambda>parsed. js ''data: '' @ template (JSON_stringify parsed) @ [0x0A, 0x0A])
             (JSON_parse dbl (drop 6 (trim l)))
      else None)"

definition malformed :: "(jsstring \<Rightarrow> jsstring) \<Rightarrow> jsstring \<Rightarrow> bool" where
  "malformed dbl l =
     (startsWith (trim l) (js ''data: '') \<and> drop 6 (trim l) \<noteq> js ''[DONE]''
      \<and> JSON_parse dbl (drop 6 (trim l)) = None)"

definition accepted :: "nat option \<Rightarrow> 'a list \<Rightarrow> 'a list" where
  "accepted cap xs = (case cap of None \<Rightarrow> xs | Some n \<Rightarrow> take n xs)"

definition relay_lines :: "(jsstring \<Rightarrow> jsstring) \<Rightarrow> nat option \<Rightarrow> jsstring list \<Rightarrow> relay \<Rightarrow> relay" where
  "relay_lines dbl cap ls st = foldl (\<lambda>s l. relay_line dbl cap (trim l) s) st ls"

definition diagnostics :: "(jsstring \<Rightarrow> jsstring) \<Rightarrow> jsstring \<Rightarrow> log_entry list" where
  "diagnostics dbl l =
     (if malformed dbl l then [(js ''Error parsing SSE data'', Thrown SyntaxError)] else [])"

definition quoted :: "string \<Rightarrow> jsstring" where
  "quoted s = [0x22] @ js s @ [0x22]"

section \<open>Texts in the form that JSON.stringify emits\<close>

text \<open>
  The vocabulary of the statement about parsing and serialising again. \<open>run\<close> is the
  parser on a piece of text. A number token is scanned by \<open>num_scan\<close>; it is in the form
  of \<^verbatim>\<open>JSON.stringify\<close> when it denotes a number whose text it is. A value is
  \<open>canonical\<close> when it has no \<^verbatim>\<open>undefined\<close> in it, its numbers are such tokens and the
  keys of its objects are distinct and stand in the enumeration order of the engine:
  these are the values whose serialisation loses nothing.
\<close>

definition run :: "(jsstring \<Rightarrow> jsstring) \<Rightarrow> pstate \<Rightarrow> jsstring \<Rightarrow> pstate" where
  "run dbl st s = foldl (step dbl) st s"

definition num_start :: "cu \<Rightarrow> numst option" where
  "num_start c =
     (if c = 0x2D then Some NMinus else if c = 0x30 then Some NZero
      else if 0x31 \<le> c \<and> c \<le> 0x39 then Some NInt else None)"

fun num_scan_from :: "numst \<Rightarrow> jsstring \<Rightarrow> numst option" where
  "num_scan_from ns [] = Some ns"
| "num_scan_from ns (c # cs) =
     (case num_next ns c of None \<Rightarrow> None | Some ns' \<Rightarrow> num_scan_from ns' cs)"

definition num_scan :: "jsstring \<Rightarrow> numst option" where
  "num_scan t =
     (case t of
        [] \<Rightarrow> None
      | c # cs \<Rightarrow> (case num_start c of None \<Rightarrow> None | Some ns \<Rightarrow> num_scan_from ns cs))"

definition canonical_number :: "(jsstring \<Rightarrow> jsstring) \<Rightarrow> jsstring \<Rightarrow> bool" where
  "canonical_number dbl t =
     (case num_scan t of
        None \<Rightarrow> False
      | Some ns \<Rightarrow> num_accepting ns \<and> num_value dbl t ns = JNum t)"

fun js_ordered :: "jsstring list \<Rightarrow> bool" where
  "js_ordered [] = True"
| "js_ordered [k] = True"
| "js_ordered (k # k' # ks) =
     ((case array_index k' of
         None \<Rightarrow> True
       | Some j \<Rightarrow> (case array_index k of None \<Rightarrow> False | Some i \<Rightarrow> i < j))
      \<and> js_ordered (k' # ks))"

definition enumeration_order :: "jsstring list \<Rightarrow> bool" where
  "enumeration_order ks = (distinct ks \<and> js_ordered ks)"

fun canonical :: "(jsstring \<Rightarrow> jsstring) \<Rightarrow> jsvalue \<Rightarrow> bool" where
  "canonical dbl JUndefined = False"
| "canonical dbl JNull = True"
| "canonical dbl (JBool b) = True"
| "canonical dbl (JNum t) = canonical_number dbl t"
| "canonical dbl (JStr s) = True"
| "canonical dbl (JArr vs) = list_all (canonical dbl) vs"
| "canonical dbl (JObj ps) =
     (enumeration_order (map fst ps) \<and> list_all (\<lambda>p. canonical dbl (snd p)) ps)"

definition element_text :: "jsvalue \<Rightarrow> jsstring" where
  "element_text v = (case JSON_stringify v of None \<Rightarrow> js ''null'' | Some t \<Rightarrow> t)"

definition member_text :: "jsstring \<times> jsvalue \<Rightarrow> jsstring" where
  "member_text p = quote (fst p) @ [0x3A] @ element_text (snd p)"

definition after :: "(jsstring \<Rightarrow> jsstring) \<Rightarrow> jsvalue \<Rightarrow> frame list \<Rightarrow> pstate" where
  "after dbl v K =
     (case v of
        JNum t \<Rightarrow> (case num_scan t of None \<Rightarrow> PErr | Some ns \<Rightarrow> PSt (MNum t ns) K)
      | _ \<Rightarrow> complete v K)"

section \<open>Lemmas about the copy task\<close>

lemma indexOf_nl_append:
  "indexOf_nl s = Some i \<Longrightarrow> indexOf_nl (s @ t) = Some i"
  by (induction s arbitrary: i) (auto split: if_splits)

lemma indexOf_nl_None: "indexOf_nl s = None \<longleftrightarrow> 0x0A \<notin> set s"
  by (induction s) auto

lemma complete_lines_append:
  "complete_lines (s @ t) = complete_lines s @ complete_lines (unterminated s @ t)"
proof (induction s rule: complete_lines.induct)
  case (1 s)
  show ?case
  proof (cases "indexOf_nl s")
    case None
    then show ?thesis
      by (simp add: complete_lines.simps [of s] unterminated.simps [of s])
  next
    case (Some i)
    then have i: "i < length s" by (rule indexOf_nl_less)
    from Some have st: "indexOf_nl (s @ t) = Some i" by (rule indexOf_nl_append)
    from 1 [OF Some] Some st i show ?thesis
      by (simp add: complete_lines.simps [of s] complete_lines.simps [of "s @ t"]
          unterminated.simps [of s])
  qed
qed

lemma unterminated_append:
  "unterminated (s @ t) = unterminated (unterminated s @ t)"
proof (induction s rule: unterminated.induct)
  case (1 s)
  show ?case
  proof (cases "indexOf_nl s")
    case None
    then show ?thesis
      by (simp add: unterminated.simps [of s])
  next
    case (Some i)
    then have i: "i < length s" by (rule indexOf_nl_less)
    from Some have st: "indexOf_nl (s @ t) = Some i" by (rule indexOf_nl_append)
    from 1 [OF Some] Some st i show ?thesis
      by (simp add: unterminated.simps [of s] unterminated.simps [of "s @ t"])
  qed
qed

lemma relay_lines_Nil: "relay_lines dbl cap [] st = st"
  by (simp add: relay_lines_def)

lemma relay_lines_Cons:
  "relay_lines dbl cap (l # ls) st = relay_lines dbl cap ls (relay_line dbl cap (trim l) st)"
  by (simp add: relay_lines_def)

lemma relay_lines_append:
  "relay_lines dbl cap (ls @ ms) st = relay_lines dbl cap ms (relay_lines dbl cap ls st)"
  by (simp add: relay_lines_def)

lemma relay_line_buffer_update:
  "relay_line dbl cap line (st\<lparr>buffer := b\<rparr>) = (relay_line dbl cap line st)\<lparr>buffer := b\<rparr>"
  by (simp add: relay_line_def Let_def writer_errored_def split: option.split)

lemma relay_lines_buffer_update:
  "relay_lines dbl cap ls (st\<lparr>buffer := b\<rparr>) = (relay_lines dbl cap ls st)\<lparr>buffer := b\<rparr>"
  by (induction ls arbitrary: st)
    (simp_all add: relay_lines_Nil relay_lines_Cons relay_line_buffer_update)

lemma drain_lines_eq:
  "drain_lines dbl cap st =
     (relay_lines dbl cap (complete_lines (buffer st)) st)\<lparr>buffer := unterminated (buffer st)\<rparr>"
proof (induction dbl cap st rule: drain_lines.induct)
  case (1 dbl cap st)
  show ?case
  proof (cases "indexOf_nl (buffer st)")
    case None
    then show ?thesis
      by (simp add: drain_lines.simps [of dbl cap st] complete_lines.simps [of "buffer st"]
          unterminated.simps [of "buffer st"] relay_lines_Nil)
  next
    case (Some i)
    from 1 [OF Some] Some show ?thesis
      by (simp add: drain_lines.simps [of dbl cap st] complete_lines.simps [of "buffer st"]
          unterminated.simps [of "buffer st"] buffer_relay_line relay_line_buffer_update
          relay_lines_buffer_update relay_lines_Cons)
  qed
qed


lemma unterminated_no_nl: "0x0A \<notin> set (unterminated s)"
proof (induction s rule: unterminated.induct)
  case (1 s)
  show ?case
  proof (cases "indexOf_nl s")
    case None
    then have "unterminated s = s" by (simp add: unterminated.simps [of s])
    with None show ?thesis by (simp add: indexOf_nl_None)
  next
    case (Some i)
    from 1 [OF Some] Some show ?thesis by (simp add: unterminated.simps [of s])
  qed
qed

lemma complete_lines_no_nl: "0x0A \<notin> set s \<Longrightarrow> complete_lines s = []"
  by (simp add: complete_lines.simps [of s] indexOf_nl_None [symmetric])

lemma unterminated_id: "0x0A \<notin> set s \<Longrightarrow> unterminated s = s"
  by (simp add: unterminated.simps [of s] indexOf_nl_None [symmetric])

lemma read_loop_eq:
  "0x0A \<notin> set (buffer st) \<Longrightarrow>
   read_loop dbl cap cs e st =
     read_loop dbl cap [] e
       ((relay_lines dbl cap (complete_lines (buffer st @ concat cs)) st)
          \<lparr>buffer := unterminated (buffer st @ concat cs)\<rparr>)"
proof (induction cs arbitrary: st)
  case Nil
  then show ?case by (simp add: complete_lines_no_nl unterminated_id relay_lines_Nil)
next
  case (Cons c cs)
  let ?st1 = "drain_lines dbl cap (st\<lparr>buffer := buffer st @ c\<rparr>)"
  have b1: "buffer ?st1 = unterminated (buffer st @ c)"
    by (simp add: drain_lines_eq)
  then have "0x0A \<notin> set (buffer ?st1)"
    by (simp add: unterminated_no_nl)
  then have ih: "read_loop dbl cap cs e ?st1 =
      read_loop dbl cap [] e
        ((relay_lines dbl cap (complete_lines (buffer ?st1 @ concat cs)) ?st1)
           \<lparr>buffer := unterminated (buffer ?st1 @ concat cs)\<rparr>)"
    by (rule Cons.IH)
  have cl: "complete_lines (buffer st @ c @ concat cs) =
      complete_lines (buffer st @ c) @ complete_lines (unterminated (buffer st @ c) @ concat cs)"
    using complete_lines_append [of "buffer st @ c" "concat cs"] by simp
  have un: "unterminated (buffer st @ c @ concat cs) =
      unterminated (unterminated (buffer st @ c) @ concat cs)"
    using unterminated_append [of "buffer st @ c" "concat cs"] by simp
  have st1: "?st1 = (relay_lines dbl cap (complete_lines (buffer st @ c)) st)
      \<lparr>buffer := unterminated (buffer st @ c)\<rparr>"
    by (simp add: drain_lines_eq relay_lines_buffer_update)
  show ?case
    by (simp add: ih b1 cl un relay_lines_append) (simp add: st1 relay_lines_buffer_update)
qed

lemma processStream_eq:
  "processStream dbl cap b =
     read_loop dbl cap [] (ending b)
       ((relay_lines dbl cap (complete_lines (concat (chunks b)))
           \<lparr>buffer = [], written = [], errors = []\<rparr>)
          \<lparr>buffer := unterminated (concat (chunks b))\<rparr>)"
  by (simp add: processStream_def read_loop_eq)

lemma relay_line_unlimited:
  "relay_line dbl None (trim l) st =
     st\<lparr>written := written st @ (case forwarded dbl l of None \<Rightarrow> [] | Some ev \<Rightarrow> [ev]),
        errors := errors st @ diagnostics dbl l\<rparr>"
  by (simp add: relay_line_def forwarded_def diagnostics_def malformed_def Let_def
      writer_errored_def split: option.split)

lemma relay_lines_unlimited:
  "relay_lines dbl None ls st =
     st\<lparr>written := written st @ List.map_filter (forwarded dbl) ls,
        errors := errors st @ concat (map (diagnostics dbl) ls)\<rparr>"
  by (induction ls arbitrary: st)
    (simp_all add: relay_lines_Nil relay_lines_Cons relay_line_unlimited List.map_filter_simps
       split: option.split)

lemma written_relay_line:
  "written (relay_line dbl cap (trim l) st) =
     (if writer_errored cap st then written st
      else written st @ (case forwarded dbl l of None \<Rightarrow> [] | Some ev \<Rightarrow> [ev]))"
  by (simp add: relay_line_def forwarded_def Let_def split: option.split)

lemma written_relay_lines:
  "accepted cap (written st) = written st \<Longrightarrow>
   written (relay_lines dbl cap ls st) =
     accepted cap (written st @ List.map_filter (forwarded dbl) ls)"
proof (induction ls arbitrary: st)
  case Nil
  then show ?case by (simp add: relay_lines_Nil List.map_filter_simps)
next
  case (Cons l ls)
  let ?st1 = "relay_line dbl cap (trim l) st"
  show ?case
  proof (cases "writer_errored cap st")
    case True
    then obtain n where n: "cap = Some n" "n \<le> length (written st)"
      by (auto simp: writer_errored_def split: option.splits)
    have w1: "written ?st1 = written st"
      using True by (simp add: written_relay_line)
    from Cons.prems n have "length (written st) = n"
      by (simp add: accepted_def)
    then have full: "accepted cap (written st @ xs) = written st" for xs
      using n by (simp add: accepted_def)
    from Cons.prems w1 have "accepted cap (written ?st1) = written ?st1" by simp
    then have "written (relay_lines dbl cap ls ?st1) =
        accepted cap (written ?st1 @ List.map_filter (forwarded dbl) ls)"
      by (rule Cons.IH)
    then show ?thesis
      by (simp add: relay_lines_Cons w1 full)
  next
    case False
    have w1: "written ?st1 = written st @ (case forwarded dbl l of None \<Rightarrow> [] | Some ev \<Rightarrow> [ev])"
      using False by (simp add: written_relay_line)
    have "accepted cap (written ?st1) = written ?st1"
      using False by (auto simp: w1 accepted_def writer_errored_def split: option.splits)
    from Cons.IH [OF this] show ?thesis
      by (simp add: relay_lines_Cons w1 List.map_filter_simps split: option.split)
  qed
qed

lemmas json_eval = JSON_parse_def step_def step_other_def start_value_def is_json_ws_def num_next_def is_digit_def
  finish_def num_accepting_def num_value_def dec_val_def close_object_def close_array_def step_string_def end_string_def
  obj_set_def array_index_def unhex_def hex4_def quote_def number_text_def is_high_surrogate_def is_low_surrogate_def
  unicode_escape_def hex_digit_def template_def

lemmas line_eval = forwarded_def malformed_def diagnostics_def trim_def is_js_space_def startsWith_def

lemma indexOf_nl_first: "0x0A \<notin> set u \<Longrightarrow> indexOf_nl (u @ 0x0A # t) = Some (length u)"
  by (induction u) auto

lemma complete_lines_first:
  "0x0A \<notin> set u \<Longrightarrow> complete_lines (u @ 0x0A # t) = u # complete_lines t"
  by (simp add: complete_lines.simps [of "u @ 0x0A # t"] indexOf_nl_first)

lemma unterminated_first:
  "0x0A \<notin> set u \<Longrightarrow> unterminated (u @ 0x0A # t) = unterminated t"
  by (simp add: unterminated.simps [of "u @ 0x0A # t"] indexOf_nl_first)

lemma unterminated_Nil: "unterminated [] = []"
  by (simp add: unterminated.simps [of "[]"])

lemma unterminated_snoc_nl: "unterminated (s @ [0x0A]) = []"
proof -
  have "unterminated (s @ [0x0A]) = unterminated (unterminated s @ [0x0A])"
    by (rule unterminated_append)
  also have "\<dots> = unterminated []"
    by (rule unterminated_first) (rule unterminated_no_nl)
  finally show ?thesis by (simp add: unterminated_Nil)
qed

lemma unterminated_whole_lines: "pre = [] \<or> last pre = 0x0A \<Longrightarrow> unterminated pre = []"
proof (cases "pre = []")
  case True
  then show ?thesis by (simp add: unterminated_Nil)
next
  case False
  assume "pre = [] \<or> last pre = 0x0A"
  with False have "pre = butlast pre @ [0x0A]"
    by (metis append_butlast_last_id)
  then show ?thesis by (metis unterminated_snoc_nl)
qed

lemma map_filter_append:
  "List.map_filter f (xs @ ys) = List.map_filter f xs @ List.map_filter f ys"
  by (simp add: List.map_filter_def)

section \<open>Lemmas about the payload and the handler\<close>

lemma map_of_obj_replace:
  "map_of (obj_replace k v ps) k' = (if k' = k \<and> map_of ps k \<noteq> None then Some v else map_of ps k')"
  by (induction ps) auto

lemma map_of_obj_insert_index:
  "map_of ps k = None \<Longrightarrow>
   map_of (obj_insert_index i k v ps) k' = (if k' = k then Some v else map_of ps k')"
  by (induction ps) (auto split: option.split if_splits)

lemma map_of_obj_set:
  "map_of (obj_set ps k v) k' = (if k' = k then Some v else map_of ps k')"
  by (auto simp: obj_set_def map_of_obj_replace map_of_obj_insert_index map_add_def
      split: option.split)

lemma map_of_spread:
  "k \<notin> fst ` set rest \<Longrightarrow>
   map_of (foldl (\<lambda>ps p. obj_set ps (fst p) (snd p)) init rest) k = map_of init k"
  by (induction rest arbitrary: init) (auto simp: map_of_obj_set)

lemma model_not_in_rest: "js ''model'' \<notin> fst ` set (restOfBody v)"
  by (auto simp: restOfBody_def)

lemma payload_model:
  "map_of (payload v) (js ''model'') =
     Some (if truthy (get_named v (js ''model'')) then get_named v (js ''model'') else JStr MODEL)"
proof -
  have ne: "js ''model'' \<noteq> js ''messages''" "js ''model'' \<noteq> js ''stream''"
    by (simp_all add: js_def)
  show ?thesis
    by (simp add: payload_def Let_def map_of_spread [OF model_not_in_rest] map_of_obj_set ne)
qed

lemma calls_handleStream:
  "truthy_string (OPENROUTER_API_KEY e) \<Longrightarrow> JSON_parse dbl (body req) = Some v \<Longrightarrow> v \<noteq> JNull \<Longrightarrow>
   calls (handleStream dbl cap upstream req e) =
     [\<lparr>url = OPENROUTER_URL, out_method = js ''POST'',
       authorization = js ''Bearer '' @ template (OPENROUTER_API_KEY e),
       content_type = js ''application/json'',
       http_referer = (if truthy_string (origin req) then template (origin req) else js ''https://localhost''),
       x_title = js ''OpenRouter Relay'',
       out_body = JSON_stringify (JObj (payload v))\<rparr>]"
  by (simp add: handleStream_def Let_def request_failed_def split_def
      split: fetch_result.split option.split sum.split)

lemma parse_model_x:
  "JSON_parse dbl (js ''{'' @ quoted ''model'' @ js '':'' @ quoted ''x'' @ js '','' @ quoted ''messages'' @ js '':[]}'')
     = Some (JObj [(js ''model'', JStr (js ''x'')), (js ''messages'', JArr [])])"
  by (simp add: js_def quoted_def json_eval)

lemmas payload_eval = payload_def restOfBody_def own_properties_def get_named_def MODEL_def

section \<open>Lemmas about parsing a serialised value\<close>

lemma nibble_cases:
  assumes "nib < (16::cu)"
  shows "nib = 0 \<or> nib = 1 \<or> nib = 2 \<or> nib = 3
      \<or> nib = 4 \<or> nib = 5 \<or> nib = 6 \<or> nib = 7
      \<or> nib = 8 \<or> nib = 9 \<or> nib = 10 \<or> nib = 11
      \<or> nib = 12 \<or> nib = 13 \<or> nib = 14 \<or> nib = 15"
proof -
  from assms have "unat nib < 16" by (simp add: word_less_nat_alt)
  then have "unat nib = 0 \<or> unat nib = 1 \<or> unat nib = 2 \<or> unat nib = 3
      \<or> unat nib = 4 \<or> unat nib = 5 \<or> unat nib = 6 \<or> unat nib = 7
      \<or> unat nib = 8 \<or> unat nib = 9 \<or> unat nib = 10 \<or> unat nib = 11
      \<or> unat nib = 12 \<or> unat nib = 13 \<or> unat nib = 14 \<or> unat nib = 15"
    by arith
  then show ?thesis
    by (simp add: word_unat_eq_iff)
qed

lemma unhex_hex_digit: "nib < 16 \<Longrightarrow> unhex (hex_digit nib) = Some nib"
  by (drule nibble_cases) (elim disjE; simp add: unhex_def hex_digit_def)

lemma nibble_bounds:
  "drop_bit 12 (c::cu) < 16" "drop_bit 8 c AND 0xF < 16" "drop_bit 4 c AND 0xF < 16" "c AND 0xF < 16"
proof -
  have a: "x AND 0xF < 16" for x :: cu
  proof -
    have "x AND 0xF \<le> 0xF" by (rule word_and_le1)
    then show ?thesis by (simp add: word_le_nat_alt word_less_nat_alt)
  qed
  show "drop_bit 8 c AND 0xF < 16" "drop_bit 4 c AND 0xF < 16" "c AND 0xF < 16"
    by (rule a)+
  have "unat (drop_bit 12 c) = unat c div 2 ^ 12"
    by (simp add: drop_bit_eq_div unat_div)
  moreover have "unat c < 2 ^ 16" using unsigned_less [of c, where ?'a = nat] by simp
  ultimately show "drop_bit 12 c < 16"
    by (simp add: word_less_nat_alt)
qed

lemma hex4_nibbles:
  "hex4 [drop_bit 12 c, drop_bit 8 c AND 0xF, drop_bit 4 c AND 0xF, c AND 0xF] = (c::cu)"
proof (rule bit_word_eqI)
  fix pos :: nat
  assume "pos < LENGTH(16)"
  then have "pos = 0 \<or> pos = 1 \<or> pos = 2 \<or> pos = 3
      \<or> pos = 4 \<or> pos = 5 \<or> pos = 6 \<or> pos = 7
      \<or> pos = 8 \<or> pos = 9 \<or> pos = 10 \<or> pos = 11
      \<or> pos = 12 \<or> pos = 13 \<or> pos = 14 \<or> pos = 15"
    by simp arith
  then show "bit (hex4 [drop_bit 12 c, drop_bit 8 c AND 0xF, drop_bit 4 c AND 0xF, c AND 0xF]) pos = bit c pos"
    by (elim disjE; simp add: hex4_def bit_simps)
qed

lemma run_Nil: "run dbl st [] = st"
  by (simp add: run_def)

lemma run_Cons: "run dbl st (c # cs) = run dbl (step dbl st c) cs"
  by (simp add: run_def)

lemma run_append: "run dbl st (s @ t) = run dbl (run dbl st s) t"
  by (simp add: run_def)

lemma step_in_string: "step dbl (PSt (MStr b acc e) K) c = step_string b acc e c K"
  by (simp add: step_def step_other_def)

lemma run_quote_char:
  "run dbl (PSt (MStr b acc Plain) K) (quote_chars [c]) = PSt (MStr b (acc @ [c]) Plain) K"
  by (simp add: run_Nil run_Cons step_in_string step_string_def unicode_escape_def
      unhex_hex_digit nibble_bounds hex4_nibbles)

lemma surrogate_plain:
  "is_high_surrogate c \<or> is_low_surrogate c \<Longrightarrow> c \<noteq> 0x22 \<and> c \<noteq> 0x5C \<and> \<not> c < 0x20"
  by (auto simp: is_high_surrogate_def is_low_surrogate_def word_le_nat_alt word_less_nat_alt)

lemma run_surrogate_pair:
  "is_high_surrogate c \<Longrightarrow> is_low_surrogate d \<Longrightarrow>
   run dbl (PSt (MStr b acc Plain) K) (c # d # r) = run dbl (PSt (MStr b (acc @ [c, d]) Plain) K) r"
  using surrogate_plain [of c] surrogate_plain [of d]
  by (simp add: run_Cons step_in_string step_string_def)

lemma run_quote_chars:
  "run dbl (PSt (MStr b acc Plain) K) (quote_chars s @ r) =
     run dbl (PSt (MStr b (acc @ s) Plain) K) r"
proof (induction s arbitrary: acc rule: quote_chars.induct)
  case 1
  show ?case by simp
next
  case (2 c)
  show ?case
    by (simp only: run_append run_quote_char)
next
  case (3 c d ds)
  show ?case
  proof (cases "is_high_surrogate c \<and> is_low_surrogate d")
    case True
    with 3(1) [of "acc @ [c, d]"] show ?thesis
      by (simp add: run_surrogate_pair)
  next
    case False
    then have "quote_chars (c # d # ds) = quote_chars [c] @ quote_chars (d # ds)"
      by (auto simp del: quote_chars.simps(2))
    with 3(3) [OF False, of "acc @ [c]"] show ?thesis
      by (simp only: run_append append_assoc run_quote_char) simp
  qed
qed

lemma run_quote:
  "run dbl (PSt (MStr b [] Plain) K) (quote_chars s @ 0x22 # r) = run dbl (end_string b s K) r"
  by (simp add: run_quote_chars run_Cons step_in_string step_string_def)

lemma num_next_delimiter:
  "c = 0x2C \<or> c = 0x5D \<or> c = 0x7D \<Longrightarrow> num_next ns c = None"
  by (cases ns) (auto simp: num_next_def is_digit_def)

lemma run_num_scan_from:
  "num_scan_from ns cs = Some ns' \<Longrightarrow>
   run dbl (PSt (MNum tok ns) K) cs = PSt (MNum (tok @ cs) ns') K"
proof (induction cs arbitrary: tok ns)
  case Nil
  then show ?case by (simp add: run_Nil)
next
  case (Cons c cs)
  then obtain ns1 where n: "num_next ns c = Some ns1" and r: "num_scan_from ns1 cs = Some ns'"
    by (auto split: option.splits)
  from Cons.IH [OF r, of "tok @ [c]"] n show ?case
    by (simp add: run_Cons step_def)
qed

lemma num_start_value:
  "num_start c = Some ns \<Longrightarrow> \<not> is_json_ws c \<and> c \<noteq> 0x5D \<and> start_value c K = PSt (MNum [c] ns) K"
  by (auto simp: num_start_def start_value_def is_json_ws_def split: if_splits)

lemma run_number:
  "num_scan t = Some ns \<Longrightarrow> run dbl (PSt MVal K) t = PSt (MNum t ns) K"
proof -
  assume a: "num_scan t = Some ns"
  then obtain c cs ns0 where t: "t = c # cs" and s: "num_start c = Some ns0"
    and r: "num_scan_from ns0 cs = Some ns"
    by (auto simp: num_scan_def split: list.splits option.splits)
  from num_start_value [OF s, of K] run_num_scan_from [OF r, of dbl "[c]" K] show ?thesis
    by (simp add: t run_Cons step_def step_other_def)
qed

lemma canonical_stringify: "canonical dbl v \<Longrightarrow> JSON_stringify v = Some (element_text v)"
  by (cases v) (simp_all add: element_text_def)

lemma element_text_fun:
  "(\<lambda>v. case JSON_stringify v of None \<Rightarrow> js ''null'' | Some t \<Rightarrow> t) = element_text"
  by (rule ext) (simp add: element_text_def)

lemma members_canonical:
  "list_all (\<lambda>p. canonical dbl (snd p)) ps \<Longrightarrow>
   concat (map (\<lambda>p. case JSON_stringify (snd p) of None \<Rightarrow> []
                     | Some t \<Rightarrow> [quote (fst p) @ [0x3A] @ t]) ps) = map member_text ps"
  by (induction ps) (auto simp: member_text_def dest: canonical_stringify)

lemma number_text_token:
  assumes "num_scan t = Some ns"
  shows "number_text t = t"
proof -
  have "num_scan (js ''Infinity'') = None" "num_scan (js ''NaN'') = None"
    by (simp_all add: num_scan_def js_def num_start_def)
  moreover have "num_scan (js ''-Infinity'') = None"
    by (simp add: num_scan_def js_def num_start_def num_next_def is_digit_def)
  ultimately show ?thesis
    using assms by (auto simp: number_text_def)
qed

lemma step_complete: "step dbl (complete v K) c = step_other (complete v K) c"
  by (induction v K rule: complete.induct) (simp_all add: step_def)

lemma step_after_delimiter:
  assumes "canonical dbl v" and "c = 0x2C \<or> c = 0x5D \<or> c = 0x7D"
  shows "step dbl (after dbl v K) c = step_other (complete v K) c"
proof (cases "\<exists>t. v = JNum t")
  case True
  then obtain t where v: "v = JNum t" ..
  with assms(1) obtain ns where "num_scan t = Some ns" "num_accepting ns" "num_value dbl t ns = JNum t"
    by (auto simp: canonical_number_def split: option.splits)
  with v num_next_delimiter [OF assms(2)] show ?thesis
    by (simp add: after_def step_def)
next
  case False
  then have "after dbl v K = complete v K"
    by (cases v) (simp_all add: after_def)
  then show ?thesis by (simp add: step_complete)
qed

lemma finish_after:
  assumes "canonical dbl v"
  shows "finish dbl (after dbl v []) = Some v"
proof (cases v)
  case (JNum t)
  with assms show ?thesis
    by (auto simp: canonical_number_def after_def finish_def split: option.splits)
qed (use assms in \<open>simp_all add: after_def finish_def\<close>)

lemma element_text_head:
  assumes "canonical dbl v"
  shows "\<exists>c cs. element_text v = c # cs \<and> \<not> is_json_ws c \<and> c \<noteq> 0x5D"
proof (cases v)
  case (JNum t)
  with assms obtain ns where ns: "num_scan t = Some ns"
    by (auto simp: canonical_number_def split: option.splits)
  then obtain c cs ns0 where "t = c # cs" "num_start c = Some ns0"
    by (auto simp: num_scan_def split: list.splits option.splits)
  with JNum ns num_start_value [of c ns0] show ?thesis
    by (simp add: element_text_def number_text_token)
qed (use assms in \<open>simp_all add: element_text_def js_def quote_def is_json_ws_def\<close>)

lemma run_ArrStart:
  "\<not> is_json_ws c \<Longrightarrow> c \<noteq> 0x5D \<Longrightarrow>
   run dbl (PSt MArrStart K) (c # cs) = run dbl (PSt MVal K) (c # cs)"
  by (simp add: run_Cons step_def step_other_def)

lemma run_ObjStart:
  "run dbl (PSt MObjStart K) (0x22 # cs) = run dbl (PSt MKey K) (0x22 # cs)"
  by (simp add: run_Cons step_def step_other_def is_json_ws_def)

lemma run_elements:
  assumes "\<And>v K. v \<in> set vs \<Longrightarrow> run dbl (PSt MVal K) (element_text v) = after dbl v K"
    and "list_all (canonical dbl) vs" and "vs \<noteq> []"
  shows "run dbl (PSt MVal (FArr acc # K)) (join [0x2C] (map element_text vs) @ 0x5D # r) =
     run dbl (complete (JArr (acc @ vs)) K) r"
  using assms
proof (induction vs arbitrary: acc)
  case Nil
  then show ?case by simp
next
  case (Cons v vs)
  from Cons.prems have v: "canonical dbl v" by simp
  have rv: "run dbl (PSt MVal (FArr acc # K)) (element_text v) = after dbl v (FArr acc # K)"
    by (rule Cons.prems(1)) simp
  show ?case
  proof (cases vs)
    case Nil
    have "step dbl (after dbl v (FArr acc # K)) 0x5D = complete (JArr (acc @ [v])) K"
      by (simp add: step_after_delimiter [OF v] step_other_def is_json_ws_def close_array_def)
    with Nil rv show ?thesis
      by (simp add: run_append run_Cons)
  next
    case (Cons w ws)
    have st: "step dbl (after dbl v (FArr acc # K)) 0x2C = PSt MVal (FArr (acc @ [v]) # K)"
      by (simp add: step_after_delimiter [OF v] step_other_def is_json_ws_def)
    have "run dbl (PSt MVal (FArr (acc @ [v]) # K)) (join [0x2C] (map element_text vs) @ 0x5D # r) =
        run dbl (complete (JArr ((acc @ [v]) @ vs)) K) r"
      using Cons.prems Cons by (intro Cons.IH) simp_all
    with Cons rv st show ?thesis
      by (simp add: run_append run_Cons)
  qed
qed

lemma run_array:
  assumes "\<And>v K. v \<in> set vs \<Longrightarrow> run dbl (PSt MVal K) (element_text v) = after dbl v K"
    and "list_all (canonical dbl) vs"
  shows "run dbl (PSt MVal K) (element_text (JArr vs)) = complete (JArr vs) K"
proof (cases vs)
  case Nil
  then show ?thesis
    by (simp add: element_text_def run_Cons run_Nil step_def step_other_def is_json_ws_def
        start_value_def close_array_def)
next
  case (Cons w ws)
  with assms(2) have "canonical dbl w" by simp
  then obtain c cs where h: "element_text w = c # cs" "\<not> is_json_ws c" "c \<noteq> 0x5D"
    using element_text_head by blast
  then obtain cs' where j: "join [0x2C] (map element_text vs) @ [0x5D] = c # cs'"
    using Cons by (cases ws) simp_all
  have "run dbl (PSt MVal K) (element_text (JArr vs)) =
      run dbl (PSt MArrStart (FArr [] # K)) (join [0x2C] (map element_text vs) @ [0x5D])"
    by (simp add: element_text_def element_text_fun run_Cons step_def step_other_def
        is_json_ws_def start_value_def)
  also have "\<dots> = run dbl (PSt MVal (FArr [] # K)) (join [0x2C] (map element_text vs) @ [0x5D])"
    unfolding j using h by (intro run_ArrStart)
  also have "\<dots> = run dbl (complete (JArr ([] @ vs)) K) []"
    using assms Cons by (intro run_elements) simp_all
  finally show ?thesis by (simp add: run_Nil)
qed

lemma run_members:
  assumes "\<And>p K. p \<in> set ps \<Longrightarrow> run dbl (PSt MVal K) (element_text (snd p)) = after dbl (snd p) K"
    and "list_all (\<lambda>p. canonical dbl (snd p)) ps" and "ps \<noteq> []"
  shows "run dbl (PSt MKey (FObj acc # K)) (join [0x2C] (map member_text ps) @ 0x7D # r) =
     run dbl (complete (JObj (foldl (\<lambda>ob p. obj_set ob (fst p) (snd p)) acc ps)) K) r"
  using assms
proof (induction ps arbitrary: acc)
  case Nil
  then show ?case by simp
next
  case (Cons p ps)
  obtain k v where p: "p = (k, v)" by (cases p)
  from Cons.prems p have v: "canonical dbl v" by simp
  have rv: "run dbl (PSt MVal (FMem acc k # K)) (element_text v) = after dbl v (FMem acc k # K)"
    using Cons.prems(1) [of p] p by simp
  have "run dbl (PSt MKey (FObj acc # K)) (0x22 # quote_chars k @ 0x22 # []) =
      PSt (MColon k) (FObj acc # K)"
    by (simp add: run_Cons step_def step_other_def is_json_ws_def run_quote end_string_def run_Nil)
  then have key: "run dbl (PSt MKey (FObj acc # K)) (quote k) = PSt (MColon k) (FObj acc # K)"
    by (simp add: quote_def)
  have mt: "member_text (k, v) = quote k @ 0x3A # element_text v"
    by (simp add: member_text_def)
  have colon: "step dbl (PSt (MColon k) (FObj acc # K)) 0x3A = PSt MVal (FMem acc k # K)"
    by (simp add: step_def step_other_def is_json_ws_def)
  show ?case
  proof (cases ps)
    case Nil
    have "step dbl (after dbl v (FMem acc k # K)) 0x7D = complete (JObj (obj_set acc k v)) K"
      by (simp add: step_after_delimiter [OF v] step_other_def is_json_ws_def close_object_def)
    with Nil rv p show ?thesis
      by (simp add: mt key colon run_append run_Cons)
  next
    case (Cons q qs)
    have st: "step dbl (after dbl v (FMem acc k # K)) 0x2C = PSt MKey (FObj (obj_set acc k v) # K)"
      by (simp add: step_after_delimiter [OF v] step_other_def is_json_ws_def)
    have "run dbl (PSt MKey (FObj (obj_set acc k v) # K)) (join [0x2C] (map member_text ps) @ 0x7D # r) =
        run dbl (complete (JObj (foldl (\<lambda>ob p. obj_set ob (fst p) (snd p)) (obj_set acc k v) ps)) K) r"
      using Cons.prems Cons by (intro Cons.IH) simp_all
    with Cons rv st p show ?thesis
      by (simp add: mt key colon run_append run_Cons)
  qed
qed

lemma insert_index_last:
  "\<forall>p \<in> set ps. \<exists>j. array_index (fst p) = Some j \<and> j < i \<Longrightarrow>
   obj_insert_index i k v ps = ps @ [(k, v)]"
  by (induction ps) auto

lemma js_ordered_prefix: "js_ordered (ks @ ls) \<Longrightarrow> js_ordered ks"
  by (induction ks rule: js_ordered.induct) (auto split: option.splits)

lemma ordered_before_index:
  "js_ordered (ks @ [k]) \<Longrightarrow> array_index k = Some i \<Longrightarrow>
   \<forall>k' \<in> set ks. \<exists>j. array_index k' = Some j \<and> j < i"
proof (induction ks rule: js_ordered.induct)
  case 1
  then show ?case by simp
next
  case (2 a)
  then show ?case by (auto split: option.splits)
next
  case (3 a b rest)
  from 3(2) have "js_ordered (b # rest @ [k])" by simp
  with 3 have ih: "\<forall>k' \<in> set (b # rest). \<exists>j. array_index k' = Some j \<and> j < i" by simp
  then obtain jb where jb: "array_index b = Some jb" "jb < i" by auto
  with 3(2) obtain ja where "array_index a = Some ja" "ja < jb"
    by (auto split: option.splits)
  with jb ih show ?case by auto
qed

lemma obj_set_last:
  assumes "enumeration_order (map fst ps @ [k])"
  shows "obj_set ps k v = ps @ [(k, v)]"
proof -
  from assms have "k \<notin> fst ` set ps" and o: "js_ordered (map fst ps @ [k])"
    by (auto simp: enumeration_order_def)
  then have m: "map_of ps k = None" by (simp add: map_of_eq_None_iff)
  show ?thesis
  proof (cases "array_index k")
    case None
    with m show ?thesis by (simp add: obj_set_def)
  next
    case (Some i)
    from ordered_before_index [OF o Some]
    have "\<forall>p \<in> set ps. \<exists>j. array_index (fst p) = Some j \<and> j < i" by auto
    then have "obj_insert_index i k v ps = ps @ [(k, v)]" by (rule insert_index_last)
    with m Some show ?thesis by (simp add: obj_set_def)
  qed
qed

lemma spread_in_order:
  "enumeration_order (map fst ps) \<Longrightarrow> foldl (\<lambda>ob p. obj_set ob (fst p) (snd p)) [] ps = ps"
proof (induction ps rule: rev_induct)
  case Nil
  show ?case by simp
next
  case (snoc p ps)
  from snoc.prems have "enumeration_order (map fst ps)"
    by (auto simp: enumeration_order_def dest: js_ordered_prefix)
  with snoc.IH have "foldl (\<lambda>ob p. obj_set ob (fst p) (snd p)) [] ps = ps" by simp
  moreover from snoc.prems have "obj_set ps (fst p) (snd p) = ps @ [(fst p, snd p)]"
    by (intro obj_set_last) simp
  ultimately show ?case by simp
qed

lemma run_object:
  assumes "\<And>p K. p \<in> set ps \<Longrightarrow> run dbl (PSt MVal K) (element_text (snd p)) = after dbl (snd p) K"
    and "list_all (\<lambda>p. canonical dbl (snd p)) ps" and "enumeration_order (map fst ps)"
  shows "run dbl (PSt MVal K) (element_text (JObj ps)) = complete (JObj ps) K"
proof (cases ps)
  case Nil
  then show ?thesis
    by (simp add: element_text_def run_Cons run_Nil step_def step_other_def is_json_ws_def
        start_value_def close_object_def)
next
  case (Cons q qs)
  then obtain cs' where j: "join [0x2C] (map member_text ps) @ [0x7D] = 0x22 # cs'"
    by (cases qs) (simp_all add: member_text_def quote_def)
  have "run dbl (PSt MVal K) (element_text (JObj ps)) =
      run dbl (PSt MObjStart (FObj [] # K)) (join [0x2C] (map member_text ps) @ [0x7D])"
    by (simp add: element_text_def members_canonical [OF assms(2)] run_Cons step_def step_other_def
        is_json_ws_def start_value_def del: JSON_stringify.simps)
      (simp add: members_canonical [OF assms(2)] run_Cons step_def step_other_def
        is_json_ws_def start_value_def)
  also have "\<dots> = run dbl (PSt MKey (FObj [] # K)) (join [0x2C] (map member_text ps) @ [0x7D])"
    unfolding j by (rule run_ObjStart)
  also have "\<dots> = run dbl (complete (JObj (foldl (\<lambda>ob p. obj_set ob (fst p) (snd p)) [] ps)) K) []"
    using assms(1,2) Cons by (intro run_members) simp_all
  finally show ?thesis by (simp add: run_Nil spread_in_order [OF assms(3)])
qed

lemma run_value:
  "canonical dbl v \<Longrightarrow> run dbl (PSt MVal K) (element_text v) = after dbl v K"
proof (induction v arbitrary: K)
  case JUndefined
  then show ?case by simp
next
  case JNull
  show ?case
    by (simp add: element_text_def js_def after_def run_Cons run_Nil step_def step_other_def
        is_json_ws_def start_value_def)
next
  case (JBool b)
  show ?case
    by (simp add: element_text_def js_def after_def run_Cons run_Nil step_def step_other_def
        is_json_ws_def start_value_def)
next
  case (JNum t)
  then obtain ns where ns: "num_scan t = Some ns"
    by (auto simp: canonical_number_def split: option.splits)
  then show ?case
    by (simp add: element_text_def number_text_token after_def run_number)
next
  case (JStr s)
  have "run dbl (PSt MVal K) (0x22 # quote_chars s @ 0x22 # []) = run dbl (end_string False s K) []"
    by (simp add: run_Cons step_def step_other_def is_json_ws_def start_value_def run_quote)
  then show ?case
    by (simp add: element_text_def quote_def after_def end_string_def run_Nil)
next
  case (JArr vs)
  then have "run dbl (PSt MVal K) (element_text (JArr vs)) = complete (JArr vs) K"
    by (intro run_array) (auto simp: list_all_iff)
  then show ?case by (simp add: after_def)
next
  case (JObj ps)
  have "run dbl (PSt MVal K) (element_text (JObj ps)) = complete (JObj ps) K"
  proof (rule run_object)
    fix p K'
    assume p: "p \<in> set ps"
    obtain k w where kw: "p = (k, w)" by (cases p)
    with p JObj.prems have "canonical dbl w" by (auto simp: list_all_iff)
    moreover from p kw have "w \<in> Basic_BNFs.snds p" by simp
    ultimately show "run dbl (PSt MVal K') (element_text (snd p)) = after dbl (snd p) K'"
      using JObj.IH [OF p] kw by simp
  qed (use JObj.prems in simp_all)
  then show ?case by (simp add: after_def)
qed

lemma canonical_roundtrip:
  "canonical dbl v \<Longrightarrow> JSON_parse dbl (element_text v) = Some v"
  using run_value [of dbl v "[]"] finish_after [of dbl v]
  by (simp add: JSON_parse_def run_def)

lemma num_next_accepting: "num_next ns c = Some ns' \<Longrightarrow> num_accepting ns' \<Longrightarrow> is_digit c"
  by (cases ns) (auto simp: num_next_def num_accepting_def is_digit_def split: if_splits)

lemma num_start_accepting: "num_start c = Some ns \<Longrightarrow> num_accepting ns \<Longrightarrow> is_digit c"
  by (auto simp: num_start_def num_accepting_def is_digit_def word_le_nat_alt split: if_splits)

lemma num_scan_from_last:
  "num_scan_from ns cs = Some ns' \<Longrightarrow> num_accepting ns' \<Longrightarrow> cs \<noteq> [] \<Longrightarrow> is_digit (last cs)"
proof (induction cs arbitrary: ns)
  case Nil
  then show ?case by simp
next
  case (Cons c cs)
  then obtain ns1 where n: "num_next ns c = Some ns1" and r: "num_scan_from ns1 cs = Some ns'"
    by (auto split: option.splits)
  show ?case
  proof (cases cs)
    case Nil
    with n r Cons.prems(2) show ?thesis by (auto dest: num_next_accepting)
  next
    case (Cons d ds)
    with Cons.IH [OF r] \<open>num_accepting ns'\<close> show ?thesis by simp
  qed
qed

lemma num_scan_last:
  assumes "num_scan t = Some ns" and "num_accepting ns"
  shows "t \<noteq> [] \<and> is_digit (last t)"
proof -
  from assms(1) obtain c cs ns0 where t: "t = c # cs" and s: "num_start c = Some ns0"
    and r: "num_scan_from ns0 cs = Some ns"
    by (auto simp: num_scan_def split: list.splits option.splits)
  show ?thesis
  proof (cases cs)
    case Nil
    with t s r assms(2) show ?thesis by (auto dest: num_start_accepting)
  next
    case (Cons d ds)
    with t num_scan_from_last [OF r assms(2)] show ?thesis by simp
  qed
qed

lemma digit_not_space: "is_digit c \<Longrightarrow> \<not> is_js_space c"
  by (auto simp: is_digit_def is_js_space_def word_le_nat_alt)

lemma element_text_last:
  assumes "canonical dbl v"
  shows "element_text v \<noteq> [] \<and> \<not> is_js_space (last (element_text v))"
proof (cases v)
  case (JNum t)
  with assms obtain ns where "num_scan t = Some ns" "num_accepting ns"
    by (auto simp: canonical_number_def split: option.splits)
  with JNum num_scan_last [of t ns] show ?thesis
    by (simp add: element_text_def number_text_token digit_not_space)
qed (use assms in \<open>simp_all add: element_text_def js_def quote_def is_js_space_def\<close>)

lemma trim_data_line:
  assumes "s \<noteq> []" and "\<not> is_js_space (last s)"
  shows "trim (js ''data: '' @ s) = js ''data: '' @ s"
proof -
  have "dropWhile is_js_space (js ''data: '' @ s) = js ''data: '' @ s"
    by (simp add: js_def is_js_space_def)
  moreover from assms have "dropWhile is_js_space (rev (js ''data: '' @ s)) = rev (js ''data: '' @ s)"
    by (cases s rule: rev_cases) simp_all
  ultimately show ?thesis by (simp add: trim_def)
qed

section \<open>The relay of the stream\<close>

text \<open>
  Claim C3. For the upstream stream whose text is the three events
  \<open>data: {"id":1}\<close>, \<open>data: [DONE]\<close> and \<open>data: {"id":2}\<close>, each followed by an empty
  line, and however the reads cut that text into pieces, the client of a relay that
  takes every write receives exactly two events, \<open>data: {"id":1}\<close> and
  \<open>data: {"id":2}\<close> in the same framing; the sentinel is not forwarded, it does not end
  the stream (the second event follows it), nothing is logged, and the stream is closed.
\<close>

theorem sentinel_dropped:
  assumes "concat cs =
      js ''data: {'' @ quoted ''id'' @ js '':1}'' @ [0x0A, 0x0A] @ js ''data: [DONE]'' @ [0x0A, 0x0A]
      @ js ''data: {'' @ quoted ''id'' @ js '':2}'' @ [0x0A, 0x0A]"
  shows "processStream dbl None \<lparr>chunks = cs, ending = EndOfStream\<rparr> =
     (\<lparr>buffer = [],
       written = [js ''data: {'' @ quoted ''id'' @ js '':1}'' @ [0x0A, 0x0A],
                  js ''data: {'' @ quoted ''id'' @ js '':2}'' @ [0x0A, 0x0A]],
       errors = []\<rparr>, Closed)"
proof -
  have cl: "complete_lines (concat cs) = [js ''data: {'' @ quoted ''id'' @ js '':1}'', [], js ''data: [DONE]'', [],
     js ''data: {'' @ quoted ''id'' @ js '':2}'', []]"
    by (simp add: assms js_def quoted_def complete_lines.simps)
  have un: "unterminated (concat cs) = []"
    by (simp add: assms js_def quoted_def unterminated.simps)
  have f1: "forwarded dbl (js ''data: {'' @ quoted ''id'' @ js '':1}'')
      = Some (js ''data: {'' @ quoted ''id'' @ js '':1}'' @ [0x0A, 0x0A])"
    by (simp add: js_def quoted_def line_eval json_eval)
  have f2: "forwarded dbl (js ''data: {'' @ quoted ''id'' @ js '':2}'')
      = Some (js ''data: {'' @ quoted ''id'' @ js '':2}'' @ [0x0A, 0x0A])"
    by (simp add: js_def quoted_def line_eval json_eval)
  have f3: "forwarded dbl (js ''data: [DONE]'') = None" "forwarded dbl [] = None"
    by (simp_all add: js_def line_eval)
  have d: "diagnostics dbl (js ''data: {'' @ quoted ''id'' @ js '':1}'') = []"
     "diagnostics dbl (js ''data: {'' @ quoted ''id'' @ js '':2}'') = []"
     "diagnostics dbl (js ''data: [DONE]'') = []" "diagnostics dbl [] = []"
    by (simp_all add: js_def quoted_def line_eval json_eval)
  show ?thesis
    by (simp add: processStream_eq relay_lines_unlimited cl un f1 f2 f3 d List.map_filter_simps
        writer_errored_def)
qed

theorem sentinel_dropped_witness:
  "concat [js ''data: {'' @ quoted ''id'' @ js '':1}'' @ [0x0A, 0x0A] @ js ''data: [DO'',
           js ''NE]'' @ [0x0A, 0x0A] @ js ''data: {'' @ quoted ''id'' @ js '':2}'' @ [0x0A, 0x0A]] =
      js ''data: {'' @ quoted ''id'' @ js '':1}'' @ [0x0A, 0x0A] @ js ''data: [DONE]'' @ [0x0A, 0x0A]
      @ js ''data: {'' @ quoted ''id'' @ js '':2}'' @ [0x0A, 0x0A]
   \<and> processStream id None
       \<lparr>chunks = [js ''data: {'' @ quoted ''id'' @ js '':1}'' @ [0x0A, 0x0A] @ js ''data: [DO'',
           js ''NE]'' @ [0x0A, 0x0A] @ js ''data: {'' @ quoted ''id'' @ js '':2}'' @ [0x0A, 0x0A]],
        ending = EndOfStream\<rparr> =
     (\<lparr>buffer = [],
       written = [js ''data: {'' @ quoted ''id'' @ js '':1}'' @ [0x0A, 0x0A],
                  js ''data: {'' @ quoted ''id'' @ js '':2}'' @ [0x0A, 0x0A]],
       errors = []\<rparr>, Closed)"
proof -
  have h: "concat [js ''data: {'' @ quoted ''id'' @ js '':1}'' @ [0x0A, 0x0A] @ js ''data: [DO'',
           js ''NE]'' @ [0x0A, 0x0A] @ js ''data: {'' @ quoted ''id'' @ js '':2}'' @ [0x0A, 0x0A]] =
      js ''data: {'' @ quoted ''id'' @ js '':1}'' @ [0x0A, 0x0A] @ js ''data: [DONE]'' @ [0x0A, 0x0A]
      @ js ''data: {'' @ quoted ''id'' @ js '':2}'' @ [0x0A, 0x0A]"
    by (simp add: js_def)
  from h sentinel_dropped [OF h, of id] show ?thesis by (rule conjI)
qed

text \<open>
  Claim C4. A malformed line is a line that, once trimmed, starts with \<open>data: \<close> and
  whose payload is not valid JSON; the sentinel, which the loop drops before it parses,
  is not one (\<open>malformed\<close>). Such a line, standing between whole lines \<open>pre\<close> and the
  rest \<open>post\<close> of the stream, yields one diagnostic and no event; the stream is not
  aborted, and the events of the lines before and after it are written, in their order,
  as if the line were not there.
\<close>

theorem malformed_line_dropped:
  assumes bad: "malformed dbl l" and l: "0x0A \<notin> set l"
    and pre: "pre = [] \<or> last pre = 0x0A"
    and whole: "concat (chunks b) = pre @ l @ [0x0A] @ post"
    and fin: "ending b = EndOfStream"
  shows "processStream dbl None b =
     (\<lparr>buffer = unterminated post,
       written = List.map_filter (forwarded dbl) (complete_lines pre)
                 @ List.map_filter (forwarded dbl) (complete_lines post),
       errors = concat (map (diagnostics dbl) (complete_lines pre))
                @ [(js ''Error parsing SSE data'', Thrown SyntaxError)]
                @ concat (map (diagnostics dbl) (complete_lines post))\<rparr>, Closed)"
proof -
  from pre have u: "unterminated pre = []" by (rule unterminated_whole_lines)
  have cl: "complete_lines (concat (chunks b)) = complete_lines pre @ l # complete_lines post"
    using l by (simp add: whole complete_lines_append [of pre] u complete_lines_first)
  have un: "unterminated (concat (chunks b)) = unterminated post"
    using l by (simp add: whole unterminated_append [of pre] u unterminated_first)
  from bad have f: "forwarded dbl l = None"
    by (simp add: malformed_def forwarded_def)
  from bad have d: "diagnostics dbl l = [(js ''Error parsing SSE data'', Thrown SyntaxError)]"
    by (simp add: diagnostics_def)
  show ?thesis
    by (simp add: processStream_eq fin cl un relay_lines_unlimited writer_errored_def
        map_filter_append List.map_filter_simps f d)
qed

theorem malformed_line_dropped_witness:
  "malformed id (js ''data: not-json'') \<and> 0x0A \<notin> set (js ''data: not-json'')
   \<and> processStream id None
       \<lparr>chunks = [js ''data: {'' @ quoted ''id'' @ js '':1}'' @ [0x0A] @ js ''data: not-json'' @ [0x0A]
                   @ js ''data: {'' @ quoted ''id'' @ js '':2}'' @ [0x0A]],
        ending = EndOfStream\<rparr> =
     (\<lparr>buffer = [],
       written = [js ''data: {'' @ quoted ''id'' @ js '':1}'' @ [0x0A, 0x0A],
                  js ''data: {'' @ quoted ''id'' @ js '':2}'' @ [0x0A, 0x0A]],
       errors = [(js ''Error parsing SSE data'', Thrown SyntaxError)]\<rparr>, Closed)"
proof -
  let ?pre = "js ''data: {'' @ quoted ''id'' @ js '':1}'' @ [0x0A]"
  let ?post = "js ''data: {'' @ quoted ''id'' @ js '':2}'' @ [0x0A]"
  let ?l = "js ''data: not-json''"
  let ?b = "\<lparr>chunks = [?pre @ ?l @ [0x0A] @ ?post], ending = EndOfStream\<rparr>"
  have bad: "malformed id ?l" by (simp add: js_def line_eval json_eval)
  have l: "0x0A \<notin> set ?l" by (simp add: js_def)
  have pre: "?pre = [] \<or> last ?pre = 0x0A" by simp
  have whole: "concat (chunks ?b) = ?pre @ ?l @ [0x0A] @ ?post" by simp
  have fin: "ending ?b = EndOfStream" by simp
  have cl: "complete_lines ?pre = [js ''data: {'' @ quoted ''id'' @ js '':1}'']"
     "complete_lines ?post = [js ''data: {'' @ quoted ''id'' @ js '':2}'']"
     "unterminated ?post = []"
    by (simp_all add: js_def quoted_def complete_lines.simps unterminated.simps)
  have ev: "forwarded id (js ''data: {'' @ quoted ''id'' @ js '':1}'')
      = Some (js ''data: {'' @ quoted ''id'' @ js '':1}'' @ [0x0A, 0x0A])"
     "forwarded id (js ''data: {'' @ quoted ''id'' @ js '':2}'')
      = Some (js ''data: {'' @ quoted ''id'' @ js '':2}'' @ [0x0A, 0x0A])"
     "diagnostics id (js ''data: {'' @ quoted ''id'' @ js '':1}'') = []"
     "diagnostics id (js ''data: {'' @ quoted ''id'' @ js '':2}'') = []"
    by (simp_all add: js_def quoted_def line_eval json_eval)
  from malformed_line_dropped [OF bad l pre whole fin] bad l show ?thesis
    by (simp add: cl ev List.map_filter_simps)
qed

text \<open>
  Claim C8. The texts that the writer accepts are the events of the complete lines
  of the upstream text, one write for each line that yields an event, in the order of
  the lines; a client that goes away after \<open>n\<close> writes has received the first \<open>n\<close> of
  them. This holds for every way in which the reads cut the text and for either end of
  the upstream body.
\<close>

theorem forwarding_order:
  "written (fst (processStream dbl cap b)) =
     accepted cap (List.map_filter (forwarded dbl) (complete_lines (concat (chunks b))))"
proof -
  have "written (fst (read_loop dbl cap [] e st)) = written st" for e st
    by (cases e) simp_all
  then show ?thesis
    by (simp add: processStream_eq written_relay_lines accepted_def split: option.split)
qed

text \<open>
  Claim C10. Take any upstream body and cut its whole text after its last line feed:
  \<open>whole\<close> is empty or ends with a line feed, and \<open>tail\<close>, the bytes after it, has
  none. However the reads deliver that text, the copy task does what it does on
  \<open>whole\<close> alone, and \<open>tail\<close> is left in the buffer: the accepted writes are the
  events of the lines of \<open>whole\<close>, and when the upstream ends and the client takes
  every write, nothing of \<open>tail\<close> is written, no diagnostic is logged for it, and the
  stream is closed.
\<close>

theorem trailing_bytes_discarded:
  assumes tail: "0x0A \<notin> set tail"
    and whole: "whole = [] \<or> last whole = 0x0A"
    and split: "concat (chunks b) = whole @ tail"
  shows "processStream dbl cap b =
     (let (st, fin) = processStream dbl cap \<lparr>chunks = [whole], ending = ending b\<rparr>
      in (st\<lparr>buffer := tail\<rparr>, fin))
   \<and> written (fst (processStream dbl cap b)) =
       accepted cap (List.map_filter (forwarded dbl) (complete_lines whole))
   \<and> (ending b = EndOfStream \<longrightarrow>
        processStream dbl None b =
          (\<lparr>buffer = tail,
            written = List.map_filter (forwarded dbl) (complete_lines whole),
            errors = concat (map (diagnostics dbl) (complete_lines whole))\<rparr>, Closed))"
proof -
  from whole have u: "unterminated whole = []" by (rule unterminated_whole_lines)
  have cl: "complete_lines (concat (chunks b)) = complete_lines whole"
    using tail by (simp add: split complete_lines_append [of whole] u complete_lines_no_nl)
  have un: "unterminated (concat (chunks b)) = tail"
    using tail by (simp add: split unterminated_append [of whole] u unterminated_id)
  have rl: "read_loop dbl cap [] e (st\<lparr>buffer := x\<rparr>) =
      (let (st', fin) = read_loop dbl cap [] e (st\<lparr>buffer := y\<rparr>) in (st'\<lparr>buffer := x\<rparr>, fin))"
    for st x y e
    by (cases e) (simp_all add: writer_errored_def split: option.split)
  have one: "processStream dbl cap b =
     (let (st, fin) = processStream dbl cap \<lparr>chunks = [whole], ending = ending b\<rparr>
      in (st\<lparr>buffer := tail\<rparr>, fin))"
    by (simp add: processStream_eq cl un u rl [where x = tail and y = "[]"] split_def Let_def)
  have w: "written (fst (read_loop dbl cap [] e st)) = written st" for e st
    by (cases e) simp_all
  have two: "written (fst (processStream dbl cap b)) =
       accepted cap (List.map_filter (forwarded dbl) (complete_lines whole))"
    by (simp add: processStream_eq cl w written_relay_lines accepted_def split: option.split)
  have three: "processStream dbl None b =
          (\<lparr>buffer = tail,
            written = List.map_filter (forwarded dbl) (complete_lines whole),
            errors = concat (map (diagnostics dbl) (complete_lines whole))\<rparr>, Closed)"
    if "ending b = EndOfStream"
    using that by (simp add: processStream_eq cl un relay_lines_unlimited writer_errored_def)
  from one two three show ?thesis by blast
qed

theorem trailing_bytes_discarded_witness:
  "0x0A \<notin> set (js ''data: {'' @ quoted ''id'' @ js '':2}'')
   \<and> concat (chunks \<lparr>chunks = [js ''data: {'' @ quoted ''id'' @ js '':1}'' @ [0x0A]
                                  @ js ''data: {'' @ quoted ''id'' @ js '':2}''],
                        ending = EndOfStream\<rparr>) =
       (js ''data: {'' @ quoted ''id'' @ js '':1}'' @ [0x0A]) @ js ''data: {'' @ quoted ''id'' @ js '':2}''
   \<and> processStream id None
       \<lparr>chunks = [js ''data: {'' @ quoted ''id'' @ js '':1}'' @ [0x0A]
                   @ js ''data: {'' @ quoted ''id'' @ js '':2}''],
        ending = EndOfStream\<rparr> =
     (\<lparr>buffer = js ''data: {'' @ quoted ''id'' @ js '':2}'',
       written = [js ''data: {'' @ quoted ''id'' @ js '':1}'' @ [0x0A, 0x0A]],
       errors = []\<rparr>, Closed)"
proof -
  let ?tail = "js ''data: {'' @ quoted ''id'' @ js '':2}''"
  let ?whole = "js ''data: {'' @ quoted ''id'' @ js '':1}'' @ [0x0A]"
  let ?b = "\<lparr>chunks = [js ''data: {'' @ quoted ''id'' @ js '':1}'' @ [0x0A]
                   @ js ''data: {'' @ quoted ''id'' @ js '':2}''], ending = EndOfStream\<rparr>"
  have t: "0x0A \<notin> set ?tail" by (simp add: js_def quoted_def)
  have w: "?whole = [] \<or> last ?whole = 0x0A" by simp
  have s: "concat (chunks ?b) = ?whole @ ?tail" by simp
  have e: "ending ?b = EndOfStream" by simp
  have cl: "complete_lines ?whole = [js ''data: {'' @ quoted ''id'' @ js '':1}'']"
    by (simp add: js_def quoted_def complete_lines.simps)
  have ev: "forwarded id (js ''data: {'' @ quoted ''id'' @ js '':1}'')
      = Some (js ''data: {'' @ quoted ''id'' @ js '':1}'' @ [0x0A, 0x0A])"
     "diagnostics id (js ''data: {'' @ quoted ''id'' @ js '':1}'') = []"
    by (simp_all add: js_def quoted_def line_eval json_eval)
  from trailing_bytes_discarded [OF t w s, of id None] e
  have "processStream id None ?b =
      (\<lparr>buffer = ?tail,
        written = List.map_filter (forwarded id) (complete_lines ?whole),
        errors = concat (map (diagnostics id) (complete_lines ?whole))\<rparr>, Closed)"
    by blast
  then have "processStream id None ?b =
     (\<lparr>buffer = ?tail, written = [js ''data: {'' @ quoted ''id'' @ js '':1}'' @ [0x0A, 0x0A]],
       errors = []\<rparr>, Closed)"
    by (simp only: cl ev List.map_filter_simps option.case list.map concat.simps append_Nil2)
  with t s show ?thesis by (simp only: simp_thms)
qed

text \<open>
  Claim C9, as amended. For a value in the form that \<^verbatim>\<open>JSON.stringify\<close> emits
  (\<open>canonical\<close>), parsing its serialisation and serialising the result gives the same
  text, code unit for code unit, and the relay forwards the line \<open>data: \<close> followed by
  that text as the event with the same text.
\<close>

theorem canonical_payload_reproduced:
  assumes "canonical dbl v"
  shows "\<exists>s. JSON_stringify v = Some s
           \<and> map_option JSON_stringify (JSON_parse dbl s) = Some (Some s)
           \<and> forwarded dbl (js ''data: '' @ s) = Some (js ''data: '' @ s @ [0x0A, 0x0A])"
proof -
  let ?s = "element_text v"
  from assms have s: "JSON_stringify v = Some ?s" by (rule canonical_stringify)
  from assms have p: "JSON_parse dbl ?s = Some v" by (rule canonical_roundtrip)
  have "JSON_parse dbl (js ''[DONE]'') = None"
    by (simp add: js_def JSON_parse_def step_def step_other_def start_value_def is_json_ws_def
        finish_def)
  with p have d: "?s \<noteq> js ''[DONE]''" by auto
  from element_text_last [OF assms] have t: "trim (js ''data: '' @ ?s) = js ''data: '' @ ?s"
    by (intro trim_data_line) simp_all
  have sw: "startsWith (js ''data: '' @ ?s) (js ''data: '')"
    by (simp add: startsWith_def js_def)
  have dr: "drop 6 (js ''data: '' @ ?s) = ?s"
    by (simp add: js_def)
  have "forwarded dbl (js ''data: '' @ ?s) = Some (js ''data: '' @ ?s @ [0x0A, 0x0A])"
    unfolding forwarded_def t dr using d by (simp add: sw p s template_def)
  with s p show ?thesis by simp
qed

theorem canonical_payload_reproduced_witness:
  "canonical id (JObj [(js ''id'', JNum (js ''1'')), (js ''delta'', JStr (js ''hi''))])
   \<and> JSON_stringify (JObj [(js ''id'', JNum (js ''1'')), (js ''delta'', JStr (js ''hi''))])
       = Some (js ''{'' @ quoted ''id'' @ js '':1,'' @ quoted ''delta'' @ js '':'' @ quoted ''hi'' @ js ''}'')
   \<and> map_option JSON_stringify
         (JSON_parse id (js ''{'' @ quoted ''id'' @ js '':1,'' @ quoted ''delta'' @ js '':'' @ quoted ''hi'' @ js ''}''))
       = Some (Some (js ''{'' @ quoted ''id'' @ js '':1,'' @ quoted ''delta'' @ js '':'' @ quoted ''hi'' @ js ''}''))"
proof -
  let ?v = "JObj [(js ''id'', JNum (js ''1'')), (js ''delta'', JStr (js ''hi''))]"
  let ?s = "js ''{'' @ quoted ''id'' @ js '':1,'' @ quoted ''delta'' @ js '':'' @ quoted ''hi'' @ js ''}''"
  have c: "canonical id ?v"
    by (simp add: js_def enumeration_order_def array_index_def is_digit_def canonical_number_def
        num_scan_def num_start_def num_accepting_def num_value_def dec_val_def)
  have s: "JSON_stringify ?v = Some ?s"
    by (simp add: js_def quoted_def quote_def number_text_def is_high_surrogate_def
        is_low_surrogate_def)
  from canonical_payload_reproduced [OF c] obtain s' where "JSON_stringify ?v = Some s'"
    and r: "map_option JSON_stringify (JSON_parse id s') = Some (Some s')"
    by blast
  with s have "s' = ?s" by (simp only: option.inject)
  with r have "map_option JSON_stringify (JSON_parse id ?s) = Some (Some ?s)" by (simp only:)
  with c s show ?thesis by (simp only: simp_thms)
qed

text \<open>
  Claim C9 as it is stated fails for a payload that is not in that form: the payload
  \<open>{"id": 1}\<close>, with a space after the colon, comes back as \<open>{"id":1}\<close>.
\<close>

theorem white_space_not_reproduced:
  "\<forall>dbl. map_option JSON_stringify (JSON_parse dbl (js ''{'' @ quoted ''id'' @ js '': 1}''))
        = Some (Some (js ''{'' @ quoted ''id'' @ js '':1}''))
      \<and> js ''{'' @ quoted ''id'' @ js '': 1}'' \<noteq> js ''{'' @ quoted ''id'' @ js '':1}''"
  by (simp add: js_def quoted_def json_eval)

section \<open>The handler's answers\<close>

text \<open>
  Claim C1, at the request body \<open>{"messages":[],"stream":false}\<close>. The claim is that
  the payload sent upstream has \<open>stream\<close> set to true whatever the inbound body says.
  The object literal of line 63 defines \<open>stream: true\<close> and then spreads
  \<^verbatim>\<open>restOfBody\<close>, which still holds the inbound \<open>stream\<close>: the body that goes upstream
  says \<open>"stream":false\<close>.
\<close>

theorem inbound_stream_flag_sent:
  "map (\<lambda>c. out_body c)
     (calls (handleStream dbl cap upstream
        \<lparr>method_name = js ''POST'', origin = None,
         body = js ''{'' @ quoted ''messages'' @ js '':[],'' @ quoted ''stream'' @ js '':false}''\<rparr>
        \<lparr>OPENROUTER_API_KEY = Some (js ''k'')\<rparr>)) =
   [Some (js ''{'' @ quoted ''model'' @ js '':'' @ quoted ''google/gemini-2.0-pro-exp-02-05:free''
          @ js '','' @ quoted ''messages'' @ js '':[],'' @ quoted ''stream'' @ js '':false}'')]"
proof -
  let ?v = "JObj [(js ''messages'', JArr []), (js ''stream'', JBool False)]"
  have key: "truthy_string (OPENROUTER_API_KEY \<lparr>OPENROUTER_API_KEY = Some (js ''k'')\<rparr>)"
    by (simp add: truthy_string_def js_def)
  have parsed: "JSON_parse dbl (js ''{'' @ quoted ''messages'' @ js '':[],'' @ quoted ''stream'' @ js '':false}'')
      = Some ?v"
    by (simp add: js_def quoted_def json_eval)
  have ser: "JSON_stringify (JObj (payload ?v)) =
      Some (js ''{'' @ quoted ''model'' @ js '':'' @ quoted ''google/gemini-2.0-pro-exp-02-05:free''
            @ js '','' @ quoted ''messages'' @ js '':[],'' @ quoted ''stream'' @ js '':false}'')"
    by (simp add: payload_eval js_def quoted_def json_eval)
  show ?thesis
    by (simp add: calls_handleStream [OF key] parsed ser del: JSON_stringify.simps)
qed

text \<open>
  Claim C2, as amended. When the handler gets as far as the upstream call (a
  credential, a body that parses and is not \<^verbatim>\<open>null\<close>), it makes one call, whose body is
  the serialisation of the payload, and the \<open>model\<close> of the payload is the inbound
  \<open>model\<close> when that is truthy (for a string: not empty) and the default otherwise: when
  it is absent, the empty string, \<^verbatim>\<open>null\<close>, \<^verbatim>\<open>false\<close> or zero. No inbound field
  overrides it, since the rest pattern keeps \<open>model\<close> out of \<^verbatim>\<open>restOfBody\<close>.
\<close>

theorem model_defaulting:
  assumes "truthy_string (OPENROUTER_API_KEY e)"
    and "JSON_parse dbl (body req) = Some v" and "v \<noteq> JNull"
  shows "\<exists>c. calls (handleStream dbl cap upstream req e) = [c]
           \<and> out_body c = JSON_stringify (JObj (payload v))
           \<and> map_of (payload v) (js ''model'') =
               Some (if truthy (get_named v (js ''model'')) then get_named v (js ''model'')
                     else JStr MODEL)"
  using assms by (simp add: calls_handleStream payload_model)

theorem model_defaulting_witness:
  "truthy_string (OPENROUTER_API_KEY \<lparr>OPENROUTER_API_KEY = Some (js ''k'')\<rparr>)
   \<and> JSON_parse id (body \<lparr>method_name = js ''POST'', origin = None,
          body = js ''{'' @ quoted ''model'' @ js '':'' @ quoted ''x'' @ js '','' @ quoted ''messages'' @ js '':[]}''\<rparr>)
       = Some (JObj [(js ''model'', JStr (js ''x'')), (js ''messages'', JArr [])])
   \<and> (\<exists>c. calls (handleStream id None (\<lambda>c. FetchRejects)
               \<lparr>method_name = js ''POST'', origin = None,
                body = js ''{'' @ quoted ''model'' @ js '':'' @ quoted ''x'' @ js '','' @ quoted ''messages'' @ js '':[]}''\<rparr>
               \<lparr>OPENROUTER_API_KEY = Some (js ''k'')\<rparr>) = [c]
          \<and> out_body c =
              Some (js ''{'' @ quoted ''model'' @ js '':'' @ quoted ''x'' @ js '','' @ quoted ''messages''
                    @ js '':[],'' @ quoted ''stream'' @ js '':true}''))
   \<and> map_of (payload (JObj [(js ''model'', JStr (js ''x'')), (js ''messages'', JArr [])])) (js ''model'')
       = Some (JStr (js ''x''))"
proof -
  let ?e = "\<lparr>OPENROUTER_API_KEY = Some (js ''k'')\<rparr>"
  let ?req = "\<lparr>method_name = js ''POST'', origin = None,
          body = js ''{'' @ quoted ''model'' @ js '':'' @ quoted ''x'' @ js '','' @ quoted ''messages'' @ js '':[]}''\<rparr>"
  let ?v = "JObj [(js ''model'', JStr (js ''x'')), (js ''messages'', JArr [])]"
  have key: "truthy_string (OPENROUTER_API_KEY ?e)" by (simp add: truthy_string_def js_def)
  have parsed: "JSON_parse id (body ?req) = Some ?v" by (simp add: parse_model_x)
  have obj: "?v \<noteq> JNull" by simp
  have ser: "JSON_stringify (JObj (payload ?v)) =
      Some (js ''{'' @ quoted ''model'' @ js '':'' @ quoted ''x'' @ js '','' @ quoted ''messages''
                    @ js '':[],'' @ quoted ''stream'' @ js '':true}'')"
    by (simp add: payload_eval js_def quoted_def json_eval)
  have m: "get_named ?v (js ''model'') = JStr (js ''x'')"
    by (simp add: get_named_def js_def)
  have x: "truthy (JStr (js ''x''))" by (simp add: js_def)
  from model_defaulting [OF key parsed obj, of None "\<lambda>c. FetchRejects"]
  obtain c where c: "calls (handleStream id None (\<lambda>c. FetchRejects) ?req ?e) = [c]"
    and b: "out_body c = JSON_stringify (JObj (payload ?v))"
    and mo: "map_of (payload ?v) (js ''model'') =
       Some (if truthy (get_named ?v (js ''model'')) then get_named ?v (js ''model'') else JStr MODEL)"
    by blast
  from b have b': "out_body c =
      Some (js ''{'' @ quoted ''model'' @ js '':'' @ quoted ''x'' @ js '','' @ quoted ''messages''
                    @ js '':[],'' @ quoted ''stream'' @ js '':true}'')"
    by (simp only: ser)
  from mo have mo': "map_of (payload ?v) (js ''model'') = Some (JStr (js ''x''))"
    by (simp only: m x if_True)
  from key parsed c b' mo' show ?thesis by blast
qed

text \<open>
  Claim C2 as it is stated fails at the body \<open>{"model":false,"messages":[]}\<close>: the
  field is present and is not empty, and the payload carries the default model.
\<close>

theorem falsy_model_replaced:
  "\<forall>dbl cap upstream.
     map (\<lambda>c. out_body c)
       (calls (handleStream dbl cap upstream
          \<lparr>method_name = js ''POST'', origin = None,
           body = js ''{'' @ quoted ''model'' @ js '':false,'' @ quoted ''messages'' @ js '':[]}''\<rparr>
          \<lparr>OPENROUTER_API_KEY = Some (js ''k'')\<rparr>)) =
     [Some (js ''{'' @ quoted ''model'' @ js '':'' @ quoted ''google/gemini-2.0-pro-exp-02-05:free''
            @ js '','' @ quoted ''messages'' @ js '':[],'' @ quoted ''stream'' @ js '':true}'')]"
proof -
  let ?v = "JObj [(js ''model'', JBool False), (js ''messages'', JArr [])]"
  have key: "truthy_string (OPENROUTER_API_KEY \<lparr>OPENROUTER_API_KEY = Some (js ''k'')\<rparr>)"
    by (simp add: truthy_string_def js_def)
  have parsed: "JSON_parse dbl (js ''{'' @ quoted ''model'' @ js '':false,'' @ quoted ''messages'' @ js '':[]}'')
      = Some ?v" for dbl
    by (simp add: js_def quoted_def json_eval)
  have ser: "JSON_stringify (JObj (payload ?v)) =
      Some (js ''{'' @ quoted ''model'' @ js '':'' @ quoted ''google/gemini-2.0-pro-exp-02-05:free''
            @ js '','' @ quoted ''messages'' @ js '':[],'' @ quoted ''stream'' @ js '':true}'')"
    by (simp add: payload_eval js_def quoted_def json_eval)
  show ?thesis
    by (simp add: calls_handleStream [OF key] parsed ser del: JSON_stringify.simps)
qed

text \<open>
  Claim C5, as amended. When the upstream answers with a status from 300 to 599 other
  than 304, and its body can be read to the end, the handler answers with that status
  and the body \<open>OpenRouter API error: \<close> followed by the upstream text; it logs the text
  and has made one upstream call.
\<close>

theorem upstream_error_relayed:
  assumes key: "truthy_string (OPENROUTER_API_KEY e)"
    and parsed: "JSON_parse dbl (body req) = Some v" and obj: "v \<noteq> JNull"
    and up: "upstream = (\<lambda>c. FetchResolves r)"
    and st: "300 \<le> up_status r" "up_status r \<le> 599" "up_status r \<noteq> 304"
    and txt_read: "text_of r = Some error"
  shows "result (handleStream dbl cap upstream req e) =
           Inr \<lparr>status = up_status r, headers = [],
                content = Plain_text (js ''OpenRouter API error: '' @ error)\<rparr>
         \<and> console (handleStream dbl cap upstream req e) = [(js ''OpenRouter API error'', Text error)]
         \<and> length (calls (handleStream dbl cap upstream req e)) = 1"
  using assms by (simp add: handleStream_def Let_def ok_def new_Response_def)

theorem upstream_error_relayed_witness:
  "truthy_string (OPENROUTER_API_KEY \<lparr>OPENROUTER_API_KEY = Some (js ''k'')\<rparr>)
   \<and> JSON_parse id (body \<lparr>method_name = js ''POST'', origin = None, body = js ''{}''\<rparr>) = Some (JObj [])
   \<and> text_of \<lparr>up_status = 429, up_body = Some \<lparr>chunks = [js ''rate limited''], ending = EndOfStream\<rparr>\<rparr>
       = Some (js ''rate limited'')
   \<and> result (handleStream id None
         (\<lambda>c. FetchResolves \<lparr>up_status = 429, up_body = Some \<lparr>chunks = [js ''rate limited''], ending = EndOfStream\<rparr>\<rparr>)
         \<lparr>method_name = js ''POST'', origin = None, body = js ''{}''\<rparr>
         \<lparr>OPENROUTER_API_KEY = Some (js ''k'')\<rparr>) =
       Inr \<lparr>status = 429, headers = [],
            content = Plain_text (js ''OpenRouter API error: '' @ js ''rate limited'')\<rparr>"
proof -
  let ?e = "\<lparr>OPENROUTER_API_KEY = Some (js ''k'')\<rparr>"
  let ?req = "\<lparr>method_name = js ''POST'', origin = None, body = js ''{}''\<rparr>"
  let ?r = "\<lparr>up_status = 429, up_body = Some \<lparr>chunks = [js ''rate limited''], ending = EndOfStream\<rparr>\<rparr>"
  have key: "truthy_string (OPENROUTER_API_KEY ?e)" by (simp add: truthy_string_def js_def)
  have parsed: "JSON_parse id (body ?req) = Some (JObj [])" by (simp add: js_def json_eval)
  have obj: "JObj [] \<noteq> JNull" by simp
  have st: "300 \<le> up_status ?r" "up_status ?r \<le> 599" "up_status ?r \<noteq> 304" by simp_all
  have tr: "text_of ?r = Some (js ''rate limited'')" by (simp add: text_of_def)
  from upstream_error_relayed [OF key parsed obj refl st tr, of None] key parsed tr
  show ?thesis by simp
qed

text \<open>
  Claim C5 as it is stated fails at the upstream status 304: the \<^verbatim>\<open>Response\<close>
  constructor throws for a null body status that is given a body, the outer
  \<^verbatim>\<open>catch\<close> takes the exception, and the handler answers 500.
\<close>

theorem upstream_304_answered_500:
  "\<forall>dbl cap.
     result (handleStream dbl cap (\<lambda>c. FetchResolves \<lparr>up_status = 304, up_body = None\<rparr>)
       \<lparr>method_name = js ''POST'', origin = None, body = js ''{}''\<rparr>
       \<lparr>OPENROUTER_API_KEY = Some (js ''k'')\<rparr>) =
     Inr \<lparr>status = 500, headers = [],
          content = Plain_text (js ''Error making request to OpenRouter'')\<rparr>"
proof -
  have parsed: "JSON_parse dbl (js ''{}'') = Some (JObj [])" for dbl
    by (simp add: js_def json_eval)
  have key: "truthy_string (Some (js ''k''))" by (simp add: truthy_string_def js_def)
  show ?thesis
    by (simp add: handleStream_def parsed key Let_def ok_def text_of_def new_Response_def
        request_failed_def)
qed

text \<open>
  Claim C6. Without a credential (the binding is not set, or is the empty string) the
  handler answers 401 \<open>Missing API key\<close>, logs the diagnostic for the operator and makes
  no upstream call; it does not read the body either.
\<close>

theorem missing_credential_unauthorized:
  "\<not> truthy_string (OPENROUTER_API_KEY e) \<Longrightarrow>
   handleStream dbl cap upstream req e =
     \<lparr>result = Inr \<lparr>status = 401, headers = [], content = Plain_text (js ''Missing API key'')\<rparr>,
      console = [(js ''Missing OpenRouter API key. Did you forget to set OPENROUTER_API_KEY in .dev.vars (for local dev) or with wrangler secret put OPENROUTER_API_KEY (for production)?'', NoDetail)],
      calls = [], body_read = False\<rparr>"
  by (simp add: handleStream_def new_Response_def)

theorem missing_credential_unauthorized_witness:
  "\<not> truthy_string (OPENROUTER_API_KEY \<lparr>OPENROUTER_API_KEY = None\<rparr>)
   \<and> handleStream id None (\<lambda>c. FetchRejects) \<lparr>method_name = js ''POST'', origin = None, body = js ''{}''\<rparr>
       \<lparr>OPENROUTER_API_KEY = None\<rparr> =
     \<lparr>result = Inr \<lparr>status = 401, headers = [], content = Plain_text (js ''Missing API key'')\<rparr>,
      console = [(js ''Missing OpenRouter API key. Did you forget to set OPENROUTER_API_KEY in .dev.vars (for local dev) or with wrangler secret put OPENROUTER_API_KEY (for production)?'', NoDetail)],
      calls = [], body_read = False\<rparr>"
proof -
  have h: "\<not> truthy_string (OPENROUTER_API_KEY \<lparr>OPENROUTER_API_KEY = None\<rparr>)"
    by (simp add: truthy_string_def)
  from h missing_credential_unauthorized [OF h] show ?thesis by (rule conjI)
qed

text \<open>
  Claim C7. A request whose method is not POST is answered 405 \<open>Method not allowed\<close>.
  The outcome is the same whatever the credential, the body and the upstream are: the
  body is not read, nothing is logged and no upstream call is made.
\<close>

theorem non_post_rejected:
  "method_name req \<noteq> js ''POST'' \<Longrightarrow>
   fetch dbl cap upstream req e =
     \<lparr>result = Inr \<lparr>status = 405, headers = [], content = Plain_text (js ''Method not allowed'')\<rparr>,
      console = [], calls = [], body_read = False\<rparr>"
  by (simp add: fetch_def new_Response_def)

theorem non_post_rejected_witness:
  "method_name \<lparr>method_name = js ''GET'', origin = None, body = js ''{}''\<rparr> \<noteq> js ''POST''
   \<and> fetch id None (\<lambda>c. FetchRejects) \<lparr>method_name = js ''GET'', origin = None, body = js ''{}''\<rparr>
       \<lparr>OPENROUTER_API_KEY = None\<rparr> =
     \<lparr>result = Inr \<lparr>status = 405, headers = [], content = Plain_text (js ''Method not allowed'')\<rparr>,
      console = [], calls = [], body_read = False\<rparr>"
proof -
  have h: "method_name \<lparr>method_name = js ''GET'', origin = None, body = js ''{}''\<rparr> \<noteq> js ''POST''"
    by (simp add: js_def)
  from h non_post_rejected [OF h] show ?thesis by (rule conjI)
qed

end
